theory Spec2Isabelle
  imports Main "HOL-Library.Word" "HOL-Library.Sublist"
begin

unbundle bit_operations_syntax

section \<open>Data model\<close>

text \<open>
  Both queues are class templates over an element type \<open>T\<close> (here the type variable
  \<open>'a\<close>) and a capacity \<open>uint32_t CNT\<close>. The template argument \<open>CNT\<close> is passed
  to every operation as a parameter of type \<open>32 word\<close>, so that all the unsigned
  arithmetic of the source wraps modulo \<open>2 ^ 32\<close> as it does in C++.

  A pointer \<open>T*\<close> into the slot array is the index of the slot it points to;
  \<open>nullptr\<close> is \<open>None\<close>. The shared fields are read and written one whole method at
  a time: the model is the sequentially consistent one, and the
  \<open>memory_order\<close> arguments of the atomic accesses have no counterpart in it.
\<close>

type_synonym u32 = "32 word"

text \<open>\<open>static_assert(CNT && !(CNT & (CNT - 1)), "CNT must be a power of 2")\<close>\<close>

definition is_pow2 :: "u32 \<Rightarrow> bool" where
  "is_pow2 CNT \<longleftrightarrow> CNT \<noteq> 0 \<and> CNT AND (CNT - 1) = 0"

text \<open>\<open>constexpr static uint32_t MASK = CNT - 1\<close>\<close>

definition MASK :: "u32 \<Rightarrow> u32" where
  "MASK CNT = CNT - 1"

text \<open>
  A callback (\<open>Writer\<close> or \<open>Reader\<close>) is a closure that is handed the slot pointer. It
  sees the closure's captured variables (the environment \<open>'e\<close>) and the slot's current
  content, and leaves a new environment and a new slot content.
\<close>

type_synonym ('e, 'a) callback = "'e \<Rightarrow> 'a \<Rightarrow> 'e \<times> 'a"

subsection \<open>SPSCQueue (src/SPSCQueue.h)\<close>

record 'a SPSCQueue =
  data :: "'a list"
  write_idx :: u32
  read_idx_cach :: u32
  read_idx :: u32

text \<open>The member initialisers; the array elements start as some default \<open>d\<close>.\<close>

definition init :: "u32 \<Rightarrow> 'a \<Rightarrow> 'a SPSCQueue" where
  "init CNT d = \<lparr>data = replicate (unat CNT) d, write_idx = 0, read_idx_cach = 0, read_idx = 0\<rparr>"

definition alloc :: "u32 \<Rightarrow> 'a SPSCQueue \<Rightarrow> nat option \<times> 'a SPSCQueue" where
  "alloc CNT q =
     (if write_idx q - read_idx_cach q = CNT then
        (let q1 = q\<lparr>read_idx_cach := read_idx q\<rparr> in
         if write_idx q1 - read_idx_cach q1 = CNT then (None, q1)
         else (Some (unat (write_idx q1 AND MASK CNT)), q1))
      else (Some (unat (write_idx q AND MASK CNT)), q))"

definition push :: "'a SPSCQueue \<Rightarrow> 'a SPSCQueue" where
  "push q = q\<lparr>write_idx := write_idx q + 1\<rparr>"

definition front :: "u32 \<Rightarrow> 'a SPSCQueue \<Rightarrow> nat option" where
  "front CNT q =
     (if read_idx q = write_idx q then None
      else Some (unat (read_idx q AND MASK CNT)))"

definition pop :: "'a SPSCQueue \<Rightarrow> 'a SPSCQueue" where
  "pop q = q\<lparr>read_idx := read_idx q + 1\<rparr>"

text \<open>\<open>writer(p)\<close> and \<open>reader(v)\<close>: the callback runs on the slot the pointer names.\<close>

definition call_slot :: "('e, 'a) callback \<Rightarrow> nat \<Rightarrow> 'e \<Rightarrow> 'a SPSCQueue \<Rightarrow> 'e \<times> 'a SPSCQueue" where
  "call_slot f p e q =
     (let (e1, x) = f e (data q ! p) in (e1, q\<lparr>data := (data q)[p := x]\<rparr>))"

definition tryPush ::
  "u32 \<Rightarrow> ('e, 'a) callback \<Rightarrow> 'e \<times> 'a SPSCQueue \<Rightarrow> bool \<times> 'e \<times> 'a SPSCQueue" where
  "tryPush CNT writer s =
     (case alloc CNT (snd s) of
        (None, q1) \<Rightarrow> (False, fst s, q1)
      | (Some p, q1) \<Rightarrow>
          (let (e2, q2) = call_slot writer p (fst s) q1 in (True, e2, push q2)))"

definition tryPop ::
  "u32 \<Rightarrow> ('e, 'a) callback \<Rightarrow> 'e \<times> 'a SPSCQueue \<Rightarrow> bool \<times> 'e \<times> 'a SPSCQueue" where
  "tryPop CNT reader s =
     (case front CNT (snd s) of
        None \<Rightarrow> (False, fst s, snd s)
      | Some v \<Rightarrow>
          (let (e2, q2) = call_slot reader v (fst s) (snd s) in (True, e2, pop q2)))"


subsection \<open>SPSCQueueOPT (src/unnamed/part_001)\<close>

text \<open>
  The second class has members of the same names. Its fields and methods carry the
  suffix \<open>_opt\<close> here; the data member of \<open>Block\<close> is \<open>bdata\<close>.

  This class indexes \<open>blk\<close> with \<open>write_idx\<close> and \<open>read_idx\<close> themselves. An index
  outside a \<open>std::array\<close> is undefined behaviour; in the model a write there changes
  nothing and a read there is an unspecified value. The indices are proved below to be
  inside the array in every state that a valid sequence of calls reaches, so no
  property proved of such a state rests on this.
\<close>

record 'a Block =
  avail :: bool
  bdata :: 'a

record 'a SPSCQueueOPT =
  blk :: "'a Block list"
  write_idx_opt :: u32
  free_write_cnt :: u32
  read_idx_opt :: u32

definition init_opt :: "u32 \<Rightarrow> 'a \<Rightarrow> 'a SPSCQueueOPT" where
  "init_opt CNT d =
     \<lparr>blk = replicate (unat CNT) \<lparr>avail = False, bdata = d\<rparr>,
      write_idx_opt = 0, free_write_cnt = CNT - 1, read_idx_opt = 0\<rparr>"

definition alloc_opt :: "u32 \<Rightarrow> 'a SPSCQueueOPT \<Rightarrow> nat option \<times> 'a SPSCQueueOPT" where
  "alloc_opt CNT q =
     (if free_write_cnt q = 0 then
        (let rd_idx = read_idx_opt q;
             q1 = q\<lparr>free_write_cnt := (rd_idx - write_idx_opt q + CNT - 1) AND MASK CNT\<rparr> in
         if free_write_cnt q1 = 0 then (None, q1)
         else (Some (unat (write_idx_opt q1)), q1))
      else (Some (unat (write_idx_opt q)), q))"

definition push_opt :: "u32 \<Rightarrow> 'a SPSCQueueOPT \<Rightarrow> 'a SPSCQueueOPT" where
  "push_opt CNT q =
     (let i = unat (write_idx_opt q) in
      q\<lparr>blk := (blk q)[i := (blk q ! i)\<lparr>avail := True\<rparr>],
        write_idx_opt := (write_idx_opt q + 1) AND MASK CNT,
        free_write_cnt := free_write_cnt q - 1\<rparr>)"

definition front_opt :: "'a SPSCQueueOPT \<Rightarrow> nat option" where
  "front_opt q =
     (let i = unat (read_idx_opt q) in
      if \<not> avail (blk q ! i) then None else Some i)"

definition pop_opt :: "u32 \<Rightarrow> 'a SPSCQueueOPT \<Rightarrow> 'a SPSCQueueOPT" where
  "pop_opt CNT q =
     (let i = unat (read_idx_opt q) in
      q\<lparr>blk := (blk q)[i := (blk q ! i)\<lparr>avail := False\<rparr>],
        read_idx_opt := (read_idx_opt q + 1) AND MASK CNT\<rparr>)"

definition call_slot_opt ::
  "('e, 'a) callback \<Rightarrow> nat \<Rightarrow> 'e \<Rightarrow> 'a SPSCQueueOPT \<Rightarrow> 'e \<times> 'a SPSCQueueOPT" where
  "call_slot_opt f p e q =
     (let (e1, x) = f e (bdata (blk q ! p)) in
      (e1, q\<lparr>blk := (blk q)[p := (blk q ! p)\<lparr>bdata := x\<rparr>]\<rparr>))"

definition tryPush_opt ::
  "u32 \<Rightarrow> ('e, 'a) callback \<Rightarrow> 'e \<times> 'a SPSCQueueOPT \<Rightarrow> bool \<times> 'e \<times> 'a SPSCQueueOPT" where
  "tryPush_opt CNT writer s =
     (case alloc_opt CNT (snd s) of
        (None, q1) \<Rightarrow> (False, fst s, q1)
      | (Some p, q1) \<Rightarrow>
          (let (e2, q2) = call_slot_opt writer p (fst s) q1 in (True, e2, push_opt CNT q2)))"

definition tryPop_opt ::
  "u32 \<Rightarrow> ('e, 'a) callback \<Rightarrow> 'e \<times> 'a SPSCQueueOPT \<Rightarrow> bool \<times> 'e \<times> 'a SPSCQueueOPT" where
  "tryPop_opt CNT reader s =
     (case front_opt (snd s) of
        None \<Rightarrow> (False, fst s, snd s)
      | Some v \<Rightarrow>
          (let (e2, q2) = call_slot_opt reader v (fst s) (snd s) in (True, e2, pop_opt CNT q2)))"


section \<open>Clients\<close>

subsection \<open>Sequences of tryPush and tryPop\<close>

text \<open>
  A producer that calls \<open>tryPush\<close> with a writer storing \<open>v\<close>, and a consumer that
  calls \<open>tryPop\<close> with a reader loading the slot. Each callback also appends the value
  it stored or loaded to a log held in its closure, so the two logs are the values
  written by the successful \<open>tryPush\<close> calls and the values read by the successful
  \<open>tryPop\<close> calls.
\<close>

datatype 'a queue_op = TryPush 'a | TryPop

definition store_value :: "'a \<Rightarrow> ('a list, 'a) callback" where
  "store_value v e x = (e @ [v], v)"

definition load_value :: "('a list, 'a) callback" where
  "load_value e x = (e @ [x], x)"

fun run_op ::
  "u32 \<Rightarrow> 'a queue_op \<Rightarrow> 'a list \<times> 'a list \<times> 'a SPSCQueue \<Rightarrow> 'a list \<times> 'a list \<times> 'a SPSCQueue" where
  "run_op CNT (TryPush v) (ins, outs, q) =
     (case tryPush CNT (store_value v) (ins, q) of (ok, ins1, q1) \<Rightarrow> (ins1, outs, q1))"
| "run_op CNT TryPop (ins, outs, q) =
     (case tryPop CNT load_value (outs, q) of (ok, outs1, q1) \<Rightarrow> (ins, outs1, q1))"

definition run ::
  "u32 \<Rightarrow> 'a queue_op list \<Rightarrow> 'a list \<times> 'a list \<times> 'a SPSCQueue \<Rightarrow> 'a list \<times> 'a list \<times> 'a SPSCQueue" where
  "run CNT ops s = fold (run_op CNT) ops s"

fun run_op_opt ::
  "u32 \<Rightarrow> 'a queue_op \<Rightarrow> 'a list \<times> 'a list \<times> 'a SPSCQueueOPT \<Rightarrow> 'a list \<times> 'a list \<times> 'a SPSCQueueOPT" where
  "run_op_opt CNT (TryPush v) (ins, outs, q) =
     (case tryPush_opt CNT (store_value v) (ins, q) of (ok, ins1, q1) \<Rightarrow> (ins1, outs, q1))"
| "run_op_opt CNT TryPop (ins, outs, q) =
     (case tryPop_opt CNT load_value (outs, q) of (ok, outs1, q1) \<Rightarrow> (ins, outs1, q1))"

definition run_opt ::
  "u32 \<Rightarrow> 'a queue_op list \<Rightarrow> 'a list \<times> 'a list \<times> 'a SPSCQueueOPT \<Rightarrow> 'a list \<times> 'a list \<times> 'a SPSCQueueOPT" where
  "run_opt CNT ops s = fold (run_op_opt CNT) ops s"

text \<open>
  The abstract FIFO list of the specification, with a capacity: a push appends when
  there is room, a pop removes the head when there is one. It keeps the same two logs.
\<close>

fun fifo_op :: "nat \<Rightarrow> 'a queue_op \<Rightarrow> 'a list \<times> 'a list \<times> 'a list \<Rightarrow> 'a list \<times> 'a list \<times> 'a list" where
  "fifo_op cap (TryPush v) (ins, outs, xs) =
     (if length xs < cap then (ins @ [v], outs, xs @ [v]) else (ins, outs, xs))"
| "fifo_op cap TryPop (ins, outs, xs) =
     (case xs of [] \<Rightarrow> (ins, outs, []) | x # xs1 \<Rightarrow> (ins, outs @ [x], xs1))"

definition fifo_run ::
  "nat \<Rightarrow> 'a queue_op list \<Rightarrow> 'a list \<times> 'a list \<times> 'a list \<Rightarrow> 'a list \<times> 'a list \<times> 'a list" where
  "fifo_run cap ops s = fold (fifo_op cap) ops s"

subsection \<open>Sequences of alloc, push, front and pop\<close>

text \<open>
  A client of the four primitive methods. It holds the pointer of its last successful
  \<open>alloc\<close> until it calls \<open>push\<close>, and the pointer of its last successful \<open>front\<close>
  until it calls \<open>pop\<close>; it writes through the first. A \<open>push\<close> with no pointer
  from \<open>alloc\<close>, and a \<open>pop\<close> with none from \<open>front\<close>, break the contract of the
  interface: the sequence is then not a valid one, and its result is \<open>None\<close>.
\<close>

datatype 'a call = Alloc | Write 'a | Push | Front | Pop

fun step ::
  "u32 \<Rightarrow> 'a call \<Rightarrow> 'a SPSCQueue \<times> nat option \<times> nat option \<Rightarrow>
     ('a SPSCQueue \<times> nat option \<times> nat option) option" where
  "step CNT Alloc (q, wp, rp) = (case alloc CNT q of (p, q1) \<Rightarrow> Some (q1, p, rp))"
| "step CNT (Write x) (q, wp, rp) =
     (case wp of None \<Rightarrow> None | Some p \<Rightarrow> Some (q\<lparr>data := (data q)[p := x]\<rparr>, wp, rp))"
| "step CNT Push (q, wp, rp) =
     (case wp of None \<Rightarrow> None | Some p \<Rightarrow> Some (push q, None, rp))"
| "step CNT Front (q, wp, rp) = Some (q, wp, front CNT q)"
| "step CNT Pop (q, wp, rp) =
     (case rp of None \<Rightarrow> None | Some p \<Rightarrow> Some (pop q, wp, None))"

fun exec ::
  "u32 \<Rightarrow> 'a call list \<Rightarrow> 'a SPSCQueue \<times> nat option \<times> nat option \<Rightarrow>
     ('a SPSCQueue \<times> nat option \<times> nat option) option" where
  "exec CNT [] s = Some s"
| "exec CNT (c # cs) s = (case step CNT c s of None \<Rightarrow> None | Some s1 \<Rightarrow> exec CNT cs s1)"

fun step_opt ::
  "u32 \<Rightarrow> 'a call \<Rightarrow> 'a SPSCQueueOPT \<times> nat option \<times> nat option \<Rightarrow>
     ('a SPSCQueueOPT \<times> nat option \<times> nat option) option" where
  "step_opt CNT Alloc (q, wp, rp) = (case alloc_opt CNT q of (p, q1) \<Rightarrow> Some (q1, p, rp))"
| "step_opt CNT (Write x) (q, wp, rp) =
     (case wp of None \<Rightarrow> None
      | Some p \<Rightarrow> Some (q\<lparr>blk := (blk q)[p := (blk q ! p)\<lparr>bdata := x\<rparr>]\<rparr>, wp, rp))"
| "step_opt CNT Push (q, wp, rp) =
     (case wp of None \<Rightarrow> None | Some p \<Rightarrow> Some (push_opt CNT q, None, rp))"
| "step_opt CNT Front (q, wp, rp) = Some (q, wp, front_opt q)"
| "step_opt CNT Pop (q, wp, rp) =
     (case rp of None \<Rightarrow> None | Some p \<Rightarrow> Some (pop_opt CNT q, wp, None))"

fun exec_opt ::
  "u32 \<Rightarrow> 'a call list \<Rightarrow> 'a SPSCQueueOPT \<times> nat option \<times> nat option \<Rightarrow>
     ('a SPSCQueueOPT \<times> nat option \<times> nat option) option" where
  "exec_opt CNT [] s = Some s"
| "exec_opt CNT (c # cs) s =
     (case step_opt CNT c s of None \<Rightarrow> None | Some s1 \<Rightarrow> exec_opt CNT cs s1)"

subsection \<open>Interleaved steps, with logs\<close>

text \<open>
  The client of the four methods with two logs: the value in the slot when \<open>push\<close>
  publishes it, and the value in the slot when \<open>pop\<close> releases it. The calls of the
  producer (\<open>alloc\<close>, writes, \<open>push\<close>) and of the consumer (\<open>front\<close>, \<open>pop\<close>) come in
  any order: these are the interleavings of the two threads at the grain of the methods.
\<close>

fun log_push :: "'a call \<Rightarrow> 'a SPSCQueue \<times> nat option \<times> nat option \<Rightarrow> 'a list \<Rightarrow> 'a list" where
  "log_push Push (q, Some p, rp) ins = ins @ [data q ! p]"
| "log_push c s ins = ins"

fun log_pop :: "'a call \<Rightarrow> 'a SPSCQueue \<times> nat option \<times> nat option \<Rightarrow> 'a list \<Rightarrow> 'a list" where
  "log_pop Pop (q, wp, Some p) outs = outs @ [data q ! p]"
| "log_pop c s outs = outs"

fun exec_log ::
  "u32 \<Rightarrow> 'a call list \<Rightarrow> 'a list \<times> 'a list \<times> 'a SPSCQueue \<times> nat option \<times> nat option \<Rightarrow>
     ('a list \<times> 'a list \<times> 'a SPSCQueue \<times> nat option \<times> nat option) option" where
  "exec_log CNT [] x = Some x"
| "exec_log CNT (c # cs) (ins, outs, s) =
     (case step CNT c s of
        None \<Rightarrow> None
      | Some s1 \<Rightarrow> exec_log CNT cs (log_push c s ins, log_pop c s outs, s1))"

text \<open>The same for SPSCQueueOPT.\<close>

fun log_push_opt ::
  "'a call \<Rightarrow> 'a SPSCQueueOPT \<times> nat option \<times> nat option \<Rightarrow> 'a list \<Rightarrow> 'a list" where
  "log_push_opt Push (q, Some p, rp) ins = ins @ [bdata (blk q ! p)]"
| "log_push_opt c s ins = ins"

fun log_pop_opt ::
  "'a call \<Rightarrow> 'a SPSCQueueOPT \<times> nat option \<times> nat option \<Rightarrow> 'a list \<Rightarrow> 'a list" where
  "log_pop_opt Pop (q, wp, Some p) outs = outs @ [bdata (blk q ! p)]"
| "log_pop_opt c s outs = outs"

fun exec_log_opt ::
  "u32 \<Rightarrow> 'a call list \<Rightarrow> 'a list \<times> 'a list \<times> 'a SPSCQueueOPT \<times> nat option \<times> nat option \<Rightarrow>
     ('a list \<times> 'a list \<times> 'a SPSCQueueOPT \<times> nat option \<times> nat option) option" where
  "exec_log_opt CNT [] x = Some x"
| "exec_log_opt CNT (c # cs) (ins, outs, s) =
     (case step_opt CNT c s of
        None \<Rightarrow> None
      | Some s1 \<Rightarrow> exec_log_opt CNT cs (log_push_opt c s ins, log_pop_opt c s outs, s1))"

section \<open>Abstraction\<close>

text \<open>
  The abstraction functions: the elements in the ring from the read position, as many
  as the cursors say.
\<close>

definition contents :: "u32 \<Rightarrow> 'a SPSCQueue \<Rightarrow> 'a list" where
  "contents CNT q =
     map (\<lambda>i. data q ! unat ((read_idx q + of_nat i) AND MASK CNT))
       [0..<unat (write_idx q - read_idx q)]"

definition contents_opt :: "u32 \<Rightarrow> 'a SPSCQueueOPT \<Rightarrow> 'a list" where
  "contents_opt CNT q =
     map (\<lambda>i. bdata (blk q ! unat ((read_idx_opt q + of_nat i) AND MASK CNT)))
       [0..<unat ((write_idx_opt q - read_idx_opt q) AND MASK CNT)]"

definition abstraction :: "u32 \<Rightarrow> 'a list \<times> 'a list \<times> 'a SPSCQueue \<Rightarrow> 'a list \<times> 'a list \<times> 'a list" where
  "abstraction CNT s = (case s of (ins, outs, q) \<Rightarrow> (ins, outs, contents CNT q))"

definition abstraction_opt ::
  "u32 \<Rightarrow> 'a list \<times> 'a list \<times> 'a SPSCQueueOPT \<Rightarrow> 'a list \<times> 'a list \<times> 'a list" where
  "abstraction_opt CNT s = (case s of (ins, outs, q) \<Rightarrow> (ins, outs, contents_opt CNT q))"

text \<open>The abstract state that the two logs alone determine.\<close>

definition fifo_of :: "'a list \<times> 'a list \<times> 'b \<Rightarrow> 'a list \<times> 'a list \<times> 'a list" where
  "fifo_of s = (case s of (ins, outs, q) \<Rightarrow> (ins, outs, drop (length outs) ins))"

section \<open>Invariants\<close>

text \<open>
  \<open>W\<close> and \<open>R\<close> are the numbers of pushes and of pops so far. In SPSCQueue the two
  cursors are these numbers modulo \<open>2 ^ 32\<close>, and the cached read index is an earlier
  value of the read index.
\<close>

definition queue_inv :: "u32 \<Rightarrow> nat \<Rightarrow> nat \<Rightarrow> 'a SPSCQueue \<Rightarrow> bool" where
  "queue_inv CNT W R q \<longleftrightarrow>
     length (data q) = unat CNT \<and> write_idx q = of_nat W \<and> read_idx q = of_nat R \<and>
     R \<le> W \<and> W \<le> R + unat CNT \<and>
     (\<exists>C. read_idx_cach q = of_nat C \<and> C \<le> R \<and> W \<le> C + unat CNT)"

text \<open>
  The client of the four methods keeps the invariant, and more: while it holds a pointer
  from \<open>alloc\<close> the cached read index leaves room for one push, and while it holds a
  pointer from \<open>front\<close> there is an element to pop.
\<close>

definition client_inv ::
  "u32 \<Rightarrow> nat \<Rightarrow> nat \<Rightarrow> 'a SPSCQueue \<times> nat option \<times> nat option \<Rightarrow> bool" where
  "client_inv CNT W R s \<longleftrightarrow>
     (case s of (q, wp, rp) \<Rightarrow>
        queue_inv CNT W R q \<and>
        (wp \<noteq> None \<longrightarrow> write_idx q - read_idx_cach q \<noteq> CNT) \<and>
        (rp \<noteq> None \<longrightarrow> R < W))"

text \<open>
  For the logging client, \<open>W\<close> and \<open>R\<close> are the lengths of the two logs; the values read
  are the first \<open>R\<close> values written, and the others are in their slots.
\<close>

definition run_inv :: "u32 \<Rightarrow> 'a list \<times> 'a list \<times> 'a SPSCQueue \<Rightarrow> bool" where
  "run_inv CNT s \<longleftrightarrow>
     (case s of (ins, outs, q) \<Rightarrow>
        queue_inv CNT (length ins) (length outs) q \<and>
        outs = take (length outs) ins \<and>
        (\<forall>j. length outs \<le> j \<and> j < length ins \<longrightarrow> data q ! (j mod unat CNT) = ins ! j))"

text \<open>
  The client with logs keeps both: the invariant of the logs, and what it knows while it
  holds a pointer, which is then the slot of the next push or pop.
\<close>

definition steps_inv ::
  "u32 \<Rightarrow> 'a list \<times> 'a list \<times> 'a SPSCQueue \<times> nat option \<times> nat option \<Rightarrow> bool" where
  "steps_inv CNT x \<longleftrightarrow>
     (case x of (ins, outs, q, wp, rp) \<Rightarrow>
        run_inv CNT (ins, outs, q) \<and>
        (\<forall>p. wp = Some p \<longrightarrow>
           write_idx q - read_idx_cach q \<noteq> CNT \<and> p = length ins mod unat CNT) \<and>
        (\<forall>p. rp = Some p \<longrightarrow> length outs < length ins \<and> p = length outs mod unat CNT))"

text \<open>
  In SPSCQueueOPT the two indices are the numbers of pushes and pops modulo \<open>CNT\<close>, the
  free count never promises more than the \<open>CNT - 1\<close> usable slots minus the ones in
  use, and the avail flags mark exactly the slots from \<open>R\<close> up to \<open>W\<close>.
\<close>

definition opt_inv :: "u32 \<Rightarrow> nat \<Rightarrow> nat \<Rightarrow> 'a SPSCQueueOPT \<Rightarrow> bool" where
  "opt_inv CNT W R q \<longleftrightarrow>
     length (blk q) = unat CNT \<and>
     unat (write_idx_opt q) = W mod unat CNT \<and>
     unat (read_idx_opt q) = R mod unat CNT \<and>
     R \<le> W \<and> unat (free_write_cnt q) + W < R + unat CNT \<and>
     (\<forall>j. R \<le> j \<and> j < R + unat CNT \<longrightarrow> avail (blk q ! (j mod unat CNT)) = (j < W))"

definition client_inv_opt ::
  "u32 \<Rightarrow> nat \<Rightarrow> nat \<Rightarrow> 'a SPSCQueueOPT \<times> nat option \<times> nat option \<Rightarrow> bool" where
  "client_inv_opt CNT W R s \<longleftrightarrow>
     (case s of (q, wp, rp) \<Rightarrow>
        opt_inv CNT W R q \<and>
        (\<forall>p. wp = Some p \<longrightarrow> free_write_cnt q \<noteq> 0 \<and> p = W mod unat CNT) \<and>
        (\<forall>p. rp = Some p \<longrightarrow> R < W \<and> p = R mod unat CNT))"

definition run_inv_opt :: "u32 \<Rightarrow> 'a list \<times> 'a list \<times> 'a SPSCQueueOPT \<Rightarrow> bool" where
  "run_inv_opt CNT s \<longleftrightarrow>
     (case s of (ins, outs, q) \<Rightarrow>
        opt_inv CNT (length ins) (length outs) q \<and>
        outs = take (length outs) ins \<and>
        (\<forall>j. length outs \<le> j \<and> j < length ins \<longrightarrow> bdata (blk q ! (j mod unat CNT)) = ins ! j))"

definition steps_inv_opt ::
  "u32 \<Rightarrow> 'a list \<times> 'a list \<times> 'a SPSCQueueOPT \<times> nat option \<times> nat option \<Rightarrow> bool" where
  "steps_inv_opt CNT x \<longleftrightarrow>
     (case x of (ins, outs, q, wp, rp) \<Rightarrow>
        run_inv_opt CNT (ins, outs, q) \<and>
        (\<forall>p. wp = Some p \<longrightarrow> free_write_cnt q \<noteq> 0 \<and> p = length ins mod unat CNT) \<and>
        (\<forall>p. rp = Some p \<longrightarrow> length outs < length ins \<and> p = length outs mod unat CNT))"

section \<open>Arithmetic of the cursors\<close>

lemma nat_pow2_trick:
  fixes n :: nat
  shows "0 < n \<Longrightarrow> n AND (n - 1) = 0 \<Longrightarrow> \<exists>k. n = 2 ^ k"
proof (induction n rule: less_induct)
  case (less n)
  show ?case
  proof (cases "n = 1")
    case True
    then have "n = 2 ^ 0" by simp
    then show ?thesis by blast
  next
    case False
    with less.prems have n2: "2 \<le> n" by simp
    show ?thesis
    proof (cases "even n")
      case True
      then obtain h where h: "n = 2 * h" by (auto elim: evenE)
      with n2 have hpos: "0 < h" by simp
      have "(n - 1) div 2 = h - 1" using h hpos by (cases h) simp_all
      moreover have "n div 2 = h" using h by simp
      moreover have "(n AND (n - 1)) div 2 = (n div 2) AND ((n - 1) div 2)"
        using drop_bit_and[of 1 n "n - 1"] by (simp add: drop_bit_eq_div)
      ultimately have "h AND (h - 1) = 0" using less.prems(2) by simp
      with less.IH[of h] h hpos obtain k where "h = 2 ^ k" by auto
      with h have "n = 2 ^ Suc k" by simp
      then show ?thesis by blast
    next
      case False
      then obtain h where h: "n = 2 * h + 1" by (auto elim: oddE)
      with n2 have hpos: "0 < h" by simp
      have "(n AND (n - 1)) div 2 = (n div 2) AND ((n - 1) div 2)"
        using drop_bit_and[of 1 n "n - 1"] by (simp add: drop_bit_eq_div)
      moreover have "n div 2 = h" "(n - 1) div 2 = h" using h by simp_all
      ultimately have "h = 0" using less.prems(2) by simp
      with hpos show ?thesis by simp
    qed
  qed
qed

lemma unat_two_power:
  assumes "k < 32" shows "unat (2 ^ k :: u32) = 2 ^ k"
proof -
  have lt: "(2::nat) ^ k < 2 ^ 32" using assms by (rule power_strict_increasing) simp
  have "(2 ^ k :: u32) = of_nat (2 ^ k)" by simp
  then have "unat (2 ^ k :: u32) = (2 ^ k) mod 2 ^ LENGTH(32)" by (simp only: unat_of_nat)
  with lt show ?thesis by simp
qed

lemma is_pow2_D:
  assumes "is_pow2 CNT" shows "\<exists>k<32. CNT = 2 ^ k"
proof -
  from assms have nz: "CNT \<noteq> 0" and a: "CNT AND (CNT - 1) = 0" by (simp_all add: is_pow2_def)
  have pos: "0 < unat CNT" using nz by (simp add: unat_gt_0)
  have "unat (CNT AND (CNT - 1)) = unat CNT AND (unat CNT - 1)"
    using nz by (simp add: unsigned_and_eq unat_minus_one)
  with a have "unat CNT AND (unat CNT - 1) = 0" by simp
  with nat_pow2_trick[OF pos] obtain k where k: "unat CNT = 2 ^ k" by blast
  have "unat CNT < 2 ^ 32" using unsigned_less[of CNT] by simp
  with k have "(2::nat) ^ k < 2 ^ 32" by simp
  then have "k < 32" by (simp only: power_strict_increasing_iff[of "2::nat"] rel_simps)
  moreover have "CNT = 2 ^ k"
  proof -
    from k have "of_nat (unat CNT) = (of_nat (2 ^ k) :: u32)" by simp
    then show ?thesis by simp
  qed
  ultimately show ?thesis by blast
qed

lemma pow2_and_mask:
  assumes "is_pow2 CNT" shows "unat (x AND MASK CNT) = unat x mod unat CNT"
proof -
  from is_pow2_D[OF assms] obtain k where k: "k < 32" "CNT = 2 ^ k" by blast
  have "x AND MASK CNT = take_bit k x"
    by (simp add: MASK_def k take_bit_eq_mask mask_eq_exp_minus_1)
  moreover have "unat CNT = 2 ^ k" using k by (simp add: unat_two_power)
  moreover have "unat (take_bit k x) = unat x mod 2 ^ k"
    by (simp only: unsigned_take_bit_eq) (simp only: take_bit_eq_mod)
  ultimately show ?thesis by simp
qed

lemma pow2_dvd: assumes "is_pow2 CNT" shows "unat CNT dvd 2 ^ 32"
proof -
  from is_pow2_D[OF assms] obtain k where k: "k < 32" "CNT = 2 ^ k" by blast
  have "unat CNT = 2 ^ k" using k by (simp add: unat_two_power)
  moreover have "(2::nat) ^ k dvd 2 ^ 32" using k(1) by (intro le_imp_power_dvd) simp
  ultimately show ?thesis by simp
qed

lemma unat_of_nat_mod_pow2:
  assumes "is_pow2 CNT" shows "unat (of_nat W :: u32) mod unat CNT = W mod unat CNT"
  using pow2_dvd[OF assms] by (simp add: unat_of_nat mod_mod_cancel)

lemma pow2_pos: "is_pow2 CNT \<Longrightarrow> 0 < unat CNT"
  by (simp add: is_pow2_def unat_gt_0)

lemma unat_of_nat_small: "D \<le> unat (CNT::u32) \<Longrightarrow> unat (of_nat D :: u32) = D"
proof -
  assume "D \<le> unat CNT"
  moreover have "unat CNT < 2 ^ 32" using unsigned_less[of CNT] by simp
  ultimately have "D < 2 ^ 32" by simp
  then show ?thesis by (simp add: unat_of_nat)
qed

lemma of_nat_eq_CNT: "D \<le> unat (CNT::u32) \<Longrightarrow> (of_nat D :: u32) = CNT \<longleftrightarrow> D = unat CNT"
  using unat_of_nat_small[of D CNT] by (auto simp: word_unat_eq_iff)

lemma of_nat_eq_0_small: "D \<le> unat (CNT::u32) \<Longrightarrow> (of_nat D :: u32) = 0 \<longleftrightarrow> D = 0"
  using unat_of_nat_small[of D CNT] by (auto simp: word_unat_eq_iff)

lemma mod_neq_of_close:
  fixes i j n :: nat
  assumes "i < j" "j - i < n" shows "i mod n \<noteq> j mod n"
proof
  assume "i mod n = j mod n"
  then have "n dvd j - i" using assms(1) by (metis mod_eq_dvd_iff_nat less_imp_le)
  then have "n \<le> j - i" using assms(1) by (simp add: dvd_imp_le)
  with assms(2) show False by simp
qed

section \<open>The methods of SPSCQueue on the invariant\<close>

lemma queue_inv_init: "queue_inv CNT 0 0 (init CNT d)"
  by (auto simp: queue_inv_def init_def intro: exI[of _ 0])

lemma word_diff_CNT:
  assumes "C \<le> W" "W \<le> C + unat (CNT::u32)"
  shows "(of_nat W :: u32) - of_nat C = CNT \<longleftrightarrow> W = C + unat CNT"
proof -
  have "(of_nat W :: u32) - of_nat C = of_nat (W - C)" using assms(1) by simp
  moreover have "W - C \<le> unat CNT" using assms by simp
  ultimately show ?thesis using of_nat_eq_CNT[of "W - C" CNT] assms by auto
qed

lemma word_eq_close:
  assumes "R \<le> W" "W \<le> R + unat (CNT::u32)" "is_pow2 CNT"
  shows "(of_nat R :: u32) = of_nat W \<longleftrightarrow> R = W"
proof -
  have "(of_nat W :: u32) - of_nat R = of_nat (W - R)" using assms(1) by simp
  moreover have "W - R \<le> unat CNT" using assms by simp
  ultimately have "(of_nat W :: u32) - of_nat R = 0 \<longleftrightarrow> W - R = 0"
    using of_nat_eq_0_small[of "W - R" CNT] by simp
  then show ?thesis using assms(1) by auto
qed

lemma unat_diff_cursors:
  assumes "queue_inv CNT W R q"
  shows "unat (write_idx q - read_idx q) = W - R"
proof -
  from assms have *: "write_idx q = of_nat W" "read_idx q = of_nat R" "R \<le> W" "W \<le> R + unat CNT"
    by (simp_all add: queue_inv_def)
  have "write_idx q - read_idx q = of_nat (W - R)" using * by simp
  moreover have "W - R \<le> unat CNT" using * by simp
  ultimately show ?thesis using unat_of_nat_small[of "W - R" CNT] by simp
qed

lemma slot_of_cursor:
  assumes "is_pow2 CNT"
  shows "unat ((of_nat W :: u32) AND MASK CNT) = W mod unat CNT"
  by (simp add: pow2_and_mask[OF assms] unat_of_nat_mod_pow2[OF assms])

lemma alloc_full:
  assumes "queue_inv CNT W R q" "W = R + unat CNT"
  shows "alloc CNT q = (None, q\<lparr>read_idx_cach := read_idx q\<rparr>)"
proof -
  from assms(1) obtain C where C: "read_idx_cach q = of_nat C" "C \<le> R" "W \<le> C + unat CNT"
    and *: "write_idx q = of_nat W" "read_idx q = of_nat R" "R \<le> W"
    by (auto simp: queue_inv_def)
  from C assms(2) have "C = R" by simp
  with C * assms(2) have "write_idx q - read_idx_cach q = CNT" "write_idx q - read_idx q = CNT"
    using word_diff_CNT[of R W CNT] by simp_all
  then show ?thesis by (simp add: alloc_def Let_def)
qed

lemma alloc_not_full:
  assumes "queue_inv CNT W R q" "W < R + unat CNT" "is_pow2 CNT"
  shows "fst (alloc CNT q) = Some (W mod unat CNT)"
    and "write_idx (snd (alloc CNT q)) - read_idx_cach (snd (alloc CNT q)) \<noteq> CNT"
    and "snd (alloc CNT q) = q \<or> snd (alloc CNT q) = q\<lparr>read_idx_cach := read_idx q\<rparr>"
proof -
  from assms(1) have *: "write_idx q = of_nat W" "read_idx q = of_nat R" "R \<le> W"
    by (auto simp: queue_inv_def)
  have ne: "write_idx q - read_idx q \<noteq> CNT"
    using * assms(2) word_diff_CNT[of R W CNT] by simp
  show "fst (alloc CNT q) = Some (W mod unat CNT)"
    using ne * by (simp add: alloc_def Let_def slot_of_cursor[OF assms(3)])
  show "write_idx (snd (alloc CNT q)) - read_idx_cach (snd (alloc CNT q)) \<noteq> CNT"
    using ne by (simp add: alloc_def Let_def)
  show "snd (alloc CNT q) = q \<or> snd (alloc CNT q) = q\<lparr>read_idx_cach := read_idx q\<rparr>"
    by (simp add: alloc_def Let_def)
qed

lemma queue_inv_refresh:
  "queue_inv CNT W R q \<Longrightarrow> queue_inv CNT W R (q\<lparr>read_idx_cach := read_idx q\<rparr>)"
  by (auto simp: queue_inv_def)

lemma queue_inv_alloc:
  "queue_inv CNT W R q \<Longrightarrow> queue_inv CNT W R (snd (alloc CNT q))"
  by (auto simp: alloc_def Let_def queue_inv_refresh)

lemma alloc_frame:
  "data (snd (alloc CNT q)) = data q" "write_idx (snd (alloc CNT q)) = write_idx q"
  "read_idx (snd (alloc CNT q)) = read_idx q"
  by (simp_all add: alloc_def Let_def)

lemma queue_inv_data:
  "queue_inv CNT W R q \<Longrightarrow> queue_inv CNT W R (q\<lparr>data := (data q)[p := x]\<rparr>)"
  by (simp add: queue_inv_def)

lemma queue_inv_push:
  assumes "queue_inv CNT W R q" "write_idx q - read_idx_cach q \<noteq> CNT"
  shows "queue_inv CNT (Suc W) R (push q)" and "W < R + unat CNT"
proof -
  from assms(1) obtain C where C: "read_idx_cach q = of_nat C" "C \<le> R" "W \<le> C + unat CNT"
    and *: "length (data q) = unat CNT" "write_idx q = of_nat W" "read_idx q = of_nat R" "R \<le> W"
    by (auto simp: queue_inv_def)
  have "W \<noteq> C + unat CNT"
    using assms(2) C * word_diff_CNT[of C W CNT] by simp
  with C have lt: "W < C + unat CNT" by simp
  then show "W < R + unat CNT" using C by simp
  show "queue_inv CNT (Suc W) R (push q)"
    unfolding queue_inv_def using * C lt
    by (auto simp: push_def intro!: exI[of _ C])
qed

lemma front_inv:
  assumes "queue_inv CNT W R q" "is_pow2 CNT"
  shows "front CNT q = (if R = W then None else Some (R mod unat CNT))"
proof -
  from assms(1) have *: "write_idx q = of_nat W" "read_idx q = of_nat R" "R \<le> W" "W \<le> R + unat CNT"
    by (auto simp: queue_inv_def)
  show ?thesis using * word_eq_close[of R W CNT] assms(2)
    by (simp add: front_def slot_of_cursor[OF assms(2)])
qed

lemma queue_inv_pop:
  assumes "queue_inv CNT W R q" "R < W"
  shows "queue_inv CNT W (Suc R) (pop q)"
proof -
  from assms(1) obtain C where C: "read_idx_cach q = of_nat C" "C \<le> R" "W \<le> C + unat CNT"
    and *: "length (data q) = unat CNT" "write_idx q = of_nat W" "read_idx q = of_nat R" "R \<le> W"
    by (auto simp: queue_inv_def)
  show ?thesis unfolding queue_inv_def using * C assms(2)
    by (auto simp: pop_def intro!: exI[of _ C])
qed

section \<open>The wrappers\<close>

lemma tryPush_fail:
  "fst (alloc CNT q) = None \<Longrightarrow> tryPush CNT writer (e, q) = (False, e, snd (alloc CNT q))"
  by (cases "alloc CNT q") (simp add: tryPush_def)

lemma tryPush_ok:
  "fst (alloc CNT q) = Some p \<Longrightarrow>
   tryPush CNT writer (e, q) =
     (True, fst (call_slot writer p e (snd (alloc CNT q))),
      push (snd (call_slot writer p e (snd (alloc CNT q)))))"
  by (cases "alloc CNT q") (simp add: tryPush_def split: prod.splits)

lemma tryPop_fail:
  "front CNT q = None \<Longrightarrow> tryPop CNT reader (e, q) = (False, e, q)"
  by (simp add: tryPop_def)

lemma tryPop_ok:
  "front CNT q = Some p \<Longrightarrow>
   tryPop CNT reader (e, q) =
     (True, fst (call_slot reader p e q), pop (snd (call_slot reader p e q)))"
  by (simp add: tryPop_def split: prod.splits)

lemma tryPush_opt_fail:
  "fst (alloc_opt CNT q) = None \<Longrightarrow>
   tryPush_opt CNT writer (e, q) = (False, e, snd (alloc_opt CNT q))"
  by (cases "alloc_opt CNT q") (simp add: tryPush_opt_def)

lemma tryPush_opt_ok:
  "fst (alloc_opt CNT q) = Some p \<Longrightarrow>
   tryPush_opt CNT writer (e, q) =
     (True, fst (call_slot_opt writer p e (snd (alloc_opt CNT q))),
      push_opt CNT (snd (call_slot_opt writer p e (snd (alloc_opt CNT q)))))"
  by (cases "alloc_opt CNT q") (simp add: tryPush_opt_def split: prod.splits)

lemma tryPop_opt_fail:
  "front_opt q = None \<Longrightarrow> tryPop_opt CNT reader (e, q) = (False, e, q)"
  by (simp add: tryPop_opt_def)

lemma tryPop_opt_ok:
  "front_opt q = Some p \<Longrightarrow>
   tryPop_opt CNT reader (e, q) =
     (True, fst (call_slot_opt reader p e q), pop_opt CNT (snd (call_slot_opt reader p e q)))"
  by (simp add: tryPop_opt_def split: prod.splits)

lemma call_slot_count: "fst (call_slot (\<lambda>n x. (Suc n, g x)) p n q) = Suc n"
  by (simp add: call_slot_def)

lemma call_slot_opt_count: "fst (call_slot_opt (\<lambda>n x. (Suc n, g x)) p n q) = Suc n"
  by (simp add: call_slot_opt_def)

lemma alloc_None_D:
  "fst (alloc CNT q) = None \<Longrightarrow> snd (alloc CNT q) = q\<lparr>read_idx_cach := read_idx q\<rparr>"
  by (simp add: alloc_def Let_def split: if_splits)

lemma alloc_opt_None_D: "fst (alloc_opt CNT q) = None \<Longrightarrow> snd (alloc_opt CNT q) = q"
  by (cases q) (auto simp add: alloc_opt_def Let_def split: if_splits)


section \<open>Clients of SPSCQueue\<close>

lemma alloc_cases:
  assumes "queue_inv CNT W R q" "is_pow2 CNT"
  shows "fst (alloc CNT q) = (if W = R + unat CNT then None else Some (W mod unat CNT))"
proof (cases "W = R + unat CNT")
  case True
  then show ?thesis using alloc_full[OF assms(1)] by simp
next
  case False
  moreover from assms(1) have "W \<le> R + unat CNT" by (simp add: queue_inv_def)
  ultimately have "W < R + unat CNT" by simp
  from alloc_not_full(1)[OF assms(1) this assms(2)] False show ?thesis by simp
qed

lemma alloc_ok_cache:
  "fst (alloc CNT q) \<noteq> None \<Longrightarrow>
   write_idx (snd (alloc CNT q)) - read_idx_cach (snd (alloc CNT q)) \<noteq> CNT"
  by (auto simp: alloc_def Let_def split: if_splits)

lemma step_inv:
  assumes "is_pow2 CNT" "client_inv CNT W R s" "step CNT c s = Some s1"
  shows "client_inv CNT (W + (if c = Push then 1 else 0)) (R + (if c = Pop then 1 else 0)) s1"
proof -
  obtain q wp rp where s: "s = (q, wp, rp)" by (cases s)
  from assms(2) s have inv: "queue_inv CNT W R q"
    and wp: "wp \<noteq> None \<Longrightarrow> write_idx q - read_idx_cach q \<noteq> CNT"
    and rp: "rp \<noteq> None \<Longrightarrow> R < W"
    by (auto simp: client_inv_def)
  show ?thesis
  proof (cases c)
    case Alloc
    then have s1: "s1 = (snd (alloc CNT q), fst (alloc CNT q), rp)"
      using assms(3) s by (auto split: prod.splits)
    show ?thesis
      using Alloc s1 rp queue_inv_alloc[OF inv] alloc_ok_cache[of CNT q]
      by (auto simp: client_inv_def)
  next
    case (Write x)
    then obtain p where "wp = Some p" and s1: "s1 = (q\<lparr>data := (data q)[p := x]\<rparr>, wp, rp)"
      using assms(3) s by (auto split: option.splits)
    then show ?thesis
      using Write wp rp queue_inv_data[OF inv] by (auto simp: client_inv_def)
  next
    case Push
    then obtain p where p: "wp = Some p" and s1: "s1 = (push q, None, rp)"
      using assms(3) s by (auto split: option.splits)
    from p wp have "write_idx q - read_idx_cach q \<noteq> CNT" by simp
    from queue_inv_push(1)[OF inv this] s1 Push rp show ?thesis
      by (auto simp: client_inv_def)
  next
    case Front
    then have s1: "s1 = (q, wp, front CNT q)" using assms(3) s by simp
    from inv have "R \<le> W" by (simp add: queue_inv_def)
    then show ?thesis
      using Front s1 inv wp front_inv[OF inv assms(1)]
      by (auto simp: client_inv_def split: if_splits)
  next
    case Pop
    then obtain p where p: "rp = Some p" and s1: "s1 = (pop q, wp, None)"
      using assms(3) s by (auto split: option.splits)
    from p rp have "R < W" by simp
    from queue_inv_pop[OF inv this] s1 Pop wp show ?thesis
      by (auto simp: client_inv_def pop_def)
  qed
qed

lemma exec_inv:
  assumes "is_pow2 CNT"
  shows "client_inv CNT W R s \<Longrightarrow> exec CNT cs s = Some s1 \<Longrightarrow>
         client_inv CNT (W + count_list cs Push) (R + count_list cs Pop) s1"
proof (induction cs arbitrary: W R s)
  case Nil
  then show ?case by simp
next
  case (Cons c cs)
  from Cons.prems(2) obtain s2 where c: "step CNT c s = Some s2" and cs: "exec CNT cs s2 = Some s1"
    by (auto split: option.splits)
  from Cons.IH[OF step_inv[OF assms Cons.prems(1) c] cs] show ?case
    by (cases "c = Push"; cases "c = Pop") (simp_all add: add.assoc)
qed

lemma client_inv_init: "client_inv CNT 0 0 (init CNT d, None, None)"
  by (simp add: client_inv_def queue_inv_init)

lemma tryPush_full:
  assumes "queue_inv CNT W R q" "W = R + unat CNT"
  shows "tryPush CNT writer (e, q) = (False, e, q\<lparr>read_idx_cach := read_idx q\<rparr>)"
  using alloc_full[OF assms] by (simp add: tryPush_def)

lemma tryPush_not_full:
  assumes "queue_inv CNT W R q" "W < R + unat CNT" "is_pow2 CNT"
  shows "\<exists>q1. tryPush CNT writer (e, q) =
           (True, fst (writer e (data q ! (W mod unat CNT))),
            q1\<lparr>data := (data q)[W mod unat CNT := snd (writer e (data q ! (W mod unat CNT)))]\<rparr>) \<and>
           queue_inv CNT (Suc W) R q1 \<and> length (data q1) = unat CNT"
proof -
  let ?a = "snd (alloc CNT q)"
  let ?p = "W mod unat CNT"
  let ?x = "snd (writer e (data q ! ?p))"
  have p: "fst (alloc CNT q) = Some ?p" by (rule alloc_not_full(1)[OF assms])
  have c: "write_idx ?a - read_idx_cach ?a \<noteq> CNT" by (rule alloc_not_full(2)[OF assms])
  have i: "queue_inv CNT W R ?a" by (rule queue_inv_alloc[OF assms(1)])
  have d: "data ?a = data q" by (rule alloc_frame)
  have "queue_inv CNT (Suc W) R (push ?a)" by (rule queue_inv_push(1)[OF i c])
  moreover have "tryPush CNT writer (e, q) =
      (True, fst (writer e (data q ! ?p)), (push ?a)\<lparr>data := (data q)[?p := ?x]\<rparr>)"
    by (simp add: tryPush_ok[OF p] call_slot_def d push_def split: prod.splits)
  ultimately show ?thesis by (auto simp: queue_inv_def)
qed

lemma tryPop_cases:
  assumes "queue_inv CNT W R q" "is_pow2 CNT"
  shows "tryPop CNT reader (e, q) =
     (if R = W then (False, e, q)
      else (True, fst (reader e (data q ! (R mod unat CNT))),
            pop (q\<lparr>data := (data q)[R mod unat CNT := snd (reader e (data q ! (R mod unat CNT)))]\<rparr>)))"
  using front_inv[OF assms]
  by (simp add: tryPop_def call_slot_def split: prod.splits)

lemma queue_inv_data_any:
  "queue_inv CNT W R q \<Longrightarrow> length xs = unat CNT \<Longrightarrow> queue_inv CNT W R (q\<lparr>data := xs\<rparr>)"
  by (simp add: queue_inv_def)

lemma run_invI:
  "queue_inv CNT (length ins) (length outs) q \<Longrightarrow> outs = take (length outs) ins \<Longrightarrow>
   (\<And>j. length outs \<le> j \<Longrightarrow> j < length ins \<Longrightarrow> data q ! (j mod unat CNT) = ins ! j) \<Longrightarrow>
   run_inv CNT (ins, outs, q)"
  by (simp add: run_inv_def)

lemma run_op_inv:
  assumes "is_pow2 CNT" "run_inv CNT s"
  shows "run_inv CNT (run_op CNT op s) \<and>
         fifo_of (run_op CNT op s) = fifo_op (unat CNT) op (fifo_of s)"
proof -
  obtain ins outs q where s: "s = (ins, outs, q)" by (cases s)
  let ?N = "unat CNT"
  let ?W = "length ins" and ?R = "length outs"
  from assms(2) s have inv: "queue_inv CNT ?W ?R q"
    and outs: "outs = take ?R ins"
    and slots: "\<And>j. ?R \<le> j \<Longrightarrow> j < ?W \<Longrightarrow> data q ! (j mod ?N) = ins ! j"
    by (auto simp: run_inv_def)
  from inv have bounds: "?R \<le> ?W" "?W \<le> ?R + ?N" and len: "length (data q) = ?N"
    by (simp_all add: queue_inv_def)
  have Npos: "0 < ?N" by (rule pow2_pos[OF assms(1)])
  show ?thesis
  proof (cases op)
    case (TryPush v)
    show ?thesis
    proof (cases "?W = ?R + ?N")
      case True
      have "run_op CNT op s = (ins, outs, q\<lparr>read_idx_cach := read_idx q\<rparr>)"
        using TryPush s tryPush_full[OF inv True, of "store_value v" ins] by simp
      moreover have "run_inv CNT (ins, outs, q\<lparr>read_idx_cach := read_idx q\<rparr>)"
        using queue_inv_refresh[OF inv] outs slots by (simp add: run_inv_def)
      ultimately show ?thesis using TryPush s True bounds by (simp add: fifo_of_def)
    next
      case False
      with bounds have lt: "?W < ?R + ?N" by simp
      from tryPush_not_full[OF inv lt assms(1), of "store_value v" ins]
      obtain q1 where t: "tryPush CNT (store_value v) (ins, q) =
            (True, ins @ [v], q1\<lparr>data := (data q)[?W mod ?N := v]\<rparr>)"
        and i1: "queue_inv CNT (Suc ?W) ?R q1" and l1: "length (data q1) = ?N"
        by (auto simp: store_value_def)
      let ?q2 = "q1\<lparr>data := (data q)[?W mod ?N := v]\<rparr>"
      have r: "run_op CNT op s = (ins @ [v], outs, ?q2)" using TryPush s t by simp
      have i2: "queue_inv CNT (length (ins @ [v])) ?R ?q2"
        using queue_inv_data_any[OF i1, of "(data q)[?W mod ?N := v]"] len by simp
      have o2: "outs = take ?R (ins @ [v])" using outs bounds by simp
      have s2: "data ?q2 ! (j mod ?N) = (ins @ [v]) ! j" if "?R \<le> j" "j < length (ins @ [v])" for j
      proof (cases "j = ?W")
        case True
        then show ?thesis using len Npos by simp
      next
        case False
        with that have jl: "j < ?W" by simp
        then have "?W - j < ?N" using that(1) lt by simp
        from mod_neq_of_close[OF jl this] have "j mod ?N \<noteq> ?W mod ?N" .
        then show ?thesis using slots[OF that(1) jl] jl by (simp add: nth_append)
      qed
      have "run_inv CNT (ins @ [v], outs, ?q2)"
        using i2 o2 s2 by (intro run_invI)
      then show ?thesis using r TryPush s lt bounds by (simp add: fifo_of_def)
    qed
  next
    case TryPop
    show ?thesis
    proof (cases "?R = ?W")
      case True
      then have "run_op CNT op s = s"
        using TryPop s tryPop_cases[OF inv assms(1), of load_value outs] by simp
      then show ?thesis using assms(2) TryPop s True by (simp add: fifo_of_def)
    next
      case False
      with bounds have lt: "?R < ?W" by simp
      have x: "data q ! (?R mod ?N) = ins ! ?R" using slots[of ?R] lt by simp
      have "tryPop CNT load_value (outs, q) = (True, outs @ [data q ! (?R mod ?N)], pop q)"
        using False tryPop_cases[OF inv assms(1), of load_value outs]
        by (simp add: load_value_def)
      then have r: "run_op CNT op s = (ins, outs @ [ins ! ?R], pop q)"
        using TryPop s x by simp
      have i2: "queue_inv CNT ?W (length (outs @ [ins ! ?R])) (pop q)"
        using queue_inv_pop[OF inv lt] by simp
      have o2: "outs @ [ins ! ?R] = take (length (outs @ [ins ! ?R])) ins"
        using outs lt by (simp add: take_Suc_conv_app_nth)
      have "run_inv CNT (ins, outs @ [ins ! ?R], pop q)"
      proof (rule run_invI)
        show "queue_inv CNT ?W (length (outs @ [ins ! ?R])) (pop q)" by (rule i2)
        show "outs @ [ins ! ?R] = take (length (outs @ [ins ! ?R])) ins" by (rule o2)
        show "data (pop q) ! (j mod ?N) = ins ! j"
          if "length (outs @ [ins ! ?R]) \<le> j" "j < ?W" for j
          using slots[of j] that by (simp add: pop_def)
      qed
      moreover have "drop ?R ins = ins ! ?R # drop (Suc ?R) ins"
        using lt by (simp add: Cons_nth_drop_Suc)
      ultimately show ?thesis using r TryPop s by (simp add: fifo_of_def)
    qed
  qed
qed

lemma run_refines:
  assumes "is_pow2 CNT"
  shows "run_inv CNT s \<Longrightarrow>
         run_inv CNT (run CNT ops s) \<and>
         fifo_of (run CNT ops s) = fifo_run (unat CNT) ops (fifo_of s)"
proof (induction ops arbitrary: s)
  case Nil
  then show ?case by (simp add: run_def fifo_run_def)
next
  case (Cons op ops)
  from run_op_inv[OF assms Cons.prems, of op]
  have 1: "run_inv CNT (run_op CNT op s)"
    and 2: "fifo_of (run_op CNT op s) = fifo_op (unat CNT) op (fifo_of s)" by simp_all
  from Cons.IH[OF 1] 2 show ?case by (simp add: run_def fifo_run_def)
qed

lemma run_inv_init: "run_inv CNT ([], [], init CNT d)"
  by (simp add: run_inv_def queue_inv_init)

section \<open>The methods of SPSCQueueOPT on the invariant\<close>

lemma uint_mod_cancel:
  assumes "is_pow2 CNT"
  shows "uint (word_of_int k :: u32) mod int (unat CNT) = k mod int (unat CNT)"
proof -
  have "int (unat CNT) dvd int (2 ^ 32)" using pow2_dvd[OF assms] by (simp only: int_dvd_int_iff)
  then have "int (unat CNT) dvd 2 ^ LENGTH(32)" by (simp del: of_nat_unat)
  then show ?thesis by (simp only: uint_word_of_int mod_mod_cancel)
qed

lemma uint_and_mask:
  assumes "is_pow2 CNT"
  shows "uint (x AND MASK CNT) = uint x mod int (unat CNT)"
  by (simp only: uint_nat pow2_and_mask[OF assms] zmod_int)

lemma int_mod_aux: "((a::int) mod n - b mod n + n - 1) mod n = (a - b + n - 1) mod n"
proof -
  have 1: "(a mod n - b mod n) mod n = (a - b) mod n" by (rule mod_diff_eq)
  have "(a mod n - b mod n + (n - 1)) mod n = (a - b + (n - 1)) mod n"
    by (rule mod_add_cong[OF 1 refl])
  then show ?thesis by (simp only: add_diff_eq)
qed

lemma int_mod_Suc: "(int (W mod n) + 1) mod int n = int (Suc W mod n)"
proof -
  have "int (Suc W mod n) = int (Suc (W mod n) mod n)" by (simp only: mod_Suc_eq)
  also have "\<dots> = (int (W mod n) + 1) mod int n"
    by (simp only: zmod_int of_nat_Suc add.commute[of 1])
  finally show ?thesis by (rule sym)
qed

lemma free_count_eq:
  assumes "is_pow2 CNT" "unat rd = R mod unat CNT" "unat wr = W mod unat CNT"
    "R \<le> W" "W < R + unat CNT"
  shows "unat ((rd - wr + CNT - 1) AND MASK CNT) = R + unat CNT - 1 - W"
proof -
  define n where "n = unat CNT"
  have e: "rd - wr + CNT - 1 = word_of_int (uint rd - uint wr + uint CNT - 1)" by simp
  have u: "uint rd = int (R mod n)" "uint wr = int (W mod n)" "uint CNT = int n"
    by (simp_all only: uint_nat assms(2,3) n_def)
  have "uint ((rd - wr + CNT - 1) AND MASK CNT) = (uint rd - uint wr + uint CNT - 1) mod int n"
    by (simp only: uint_and_mask[OF assms(1)] e uint_mod_cancel[OF assms(1)] n_def)
  also have "\<dots> = (int R mod int n - int W mod int n + int n - 1) mod int n"
    by (simp only: u zmod_int)
  also have "\<dots> = (int R - int W + int n - 1) mod int n"
    by (rule int_mod_aux)
  also have "int R - int W + int n - 1 = int (R + n - 1 - W)"
    using assms(4,5) unfolding n_def[symmetric] by linarith
  also have "int (R + n - 1 - W) mod int n = int (R + n - 1 - W)"
    using assms(4,5) unfolding n_def[symmetric] by (intro mod_pos_pos_trivial) linarith+
  finally have "int (unat ((rd - wr + CNT - 1) AND MASK CNT)) = int (R + n - 1 - W)"
    by (simp only: uint_nat)
  then show ?thesis unfolding n_def by (simp only: of_nat_eq_iff)
qed

lemma next_index:
  assumes "is_pow2 CNT" "unat x = W mod unat CNT"
  shows "unat ((x + 1) AND MASK CNT) = Suc W mod unat CNT"
proof -
  define n where "n = unat CNT"
  have e: "x + 1 = word_of_int (uint x + 1)" by simp
  have u: "uint x = int (W mod n)" by (simp only: uint_nat assms(2) n_def)
  have "uint ((x + 1) AND MASK CNT) = (uint x + 1) mod int n"
    by (simp only: uint_and_mask[OF assms(1)] e uint_mod_cancel[OF assms(1)] n_def)
  also have "\<dots> = int (Suc W mod n)" by (simp only: u int_mod_Suc)
  finally have "int (unat ((x + 1) AND MASK CNT)) = int (Suc W mod n)"
    by (simp only: uint_nat)
  then show ?thesis unfolding n_def by (simp only: of_nat_eq_iff)
qed

lemma opt_inv_init:
  assumes "is_pow2 CNT" shows "opt_inv CNT 0 0 (init_opt CNT d)"
proof -
  have nz: "CNT \<noteq> 0" using assms by (simp add: is_pow2_def)
  have pos: "0 < unat CNT" by (rule pow2_pos[OF assms])
  have "unat (CNT - 1) = unat CNT - 1" using nz by (simp add: unat_minus_one)
  with pos show ?thesis by (simp add: opt_inv_def init_opt_def)
qed

lemma alloc_opt_frame:
  "blk (snd (alloc_opt CNT q)) = blk q"
  "write_idx_opt (snd (alloc_opt CNT q)) = write_idx_opt q"
  "read_idx_opt (snd (alloc_opt CNT q)) = read_idx_opt q"
  by (simp_all add: alloc_opt_def Let_def)

lemma alloc_opt_ok_count:
  "fst (alloc_opt CNT q) \<noteq> None \<Longrightarrow> free_write_cnt (snd (alloc_opt CNT q)) \<noteq> 0"
  by (auto simp: alloc_opt_def Let_def split: if_splits)

lemma alloc_opt_cases:
  assumes "opt_inv CNT W R q" "is_pow2 CNT"
  shows "fst (alloc_opt CNT q) = (if Suc W = R + unat CNT then None else Some (W mod unat CNT))"
    and "opt_inv CNT W R (snd (alloc_opt CNT q))"
proof -
  let ?N = "unat CNT"
  from assms(1) have *: "unat (write_idx_opt q) = W mod ?N" "unat (read_idx_opt q) = R mod ?N"
    "R \<le> W" "unat (free_write_cnt q) + W < R + ?N"
    by (simp_all add: opt_inv_def)
  let ?f = "(read_idx_opt q - write_idx_opt q + CNT - 1) AND MASK CNT"
  have lt: "W < R + ?N" using *(4) by simp
  have f: "unat ?f = R + ?N - 1 - W" by (rule free_count_eq[OF assms(2) *(2) *(1) *(3) lt])
  have f0: "?f = 0 \<longleftrightarrow> Suc W = R + ?N"
  proof -
    have "?f = 0 \<longleftrightarrow> unat ?f = 0" by (simp only: unat_eq_0)
    also have "\<dots> \<longleftrightarrow> Suc W = R + ?N" using f lt by auto
    finally show ?thesis .
  qed
  show "fst (alloc_opt CNT q) = (if Suc W = R + ?N then None else Some (W mod ?N))"
  proof (cases "free_write_cnt q = 0")
    case True
    then show ?thesis using f0 * by (simp add: alloc_opt_def Let_def)
  next
    case False
    then have "0 < unat (free_write_cnt q)" by (simp add: unat_gt_0)
    with *(4) have "Suc W \<noteq> R + ?N" by simp
    then show ?thesis using False * by (simp add: alloc_opt_def Let_def)
  qed
  show "opt_inv CNT W R (snd (alloc_opt CNT q))"
  proof (cases "free_write_cnt q = 0")
    case True
    have "snd (alloc_opt CNT q) = q\<lparr>free_write_cnt := ?f\<rparr>"
      using True by (simp add: alloc_opt_def Let_def)
    moreover have "opt_inv CNT W R (q\<lparr>free_write_cnt := ?f\<rparr>)"
      using assms(1) f lt unfolding opt_inv_def by simp
    ultimately show ?thesis by simp
  next
    case False
    then show ?thesis using assms(1) by (simp add: alloc_opt_def)
  qed
qed

lemma opt_inv_bdata:
  assumes "opt_inv CNT W R q"
  shows "opt_inv CNT W R (q\<lparr>blk := (blk q)[p := (blk q ! p)\<lparr>bdata := x\<rparr>]\<rparr>)"
proof -
  have "avail ((blk q)[p := (blk q ! p)\<lparr>bdata := x\<rparr>] ! i) = avail (blk q ! i)" for i
    by (cases "p < length (blk q)") (auto simp: nth_list_update list_update_beyond)
  then show ?thesis using assms by (simp add: opt_inv_def)
qed

lemma push_opt_inv:
  assumes "opt_inv CNT W R q" "free_write_cnt q \<noteq> 0" "is_pow2 CNT"
  shows "opt_inv CNT (Suc W) R (push_opt CNT q)"
proof -
  let ?N = "unat CNT"
  from assms(1) have len: "length (blk q) = ?N"
    and wi: "unat (write_idx_opt q) = W mod ?N" and ri: "unat (read_idx_opt q) = R mod ?N"
    and le: "R \<le> W" and fr: "unat (free_write_cnt q) + W < R + ?N"
    and av: "\<And>j. R \<le> j \<Longrightarrow> j < R + ?N \<Longrightarrow> avail (blk q ! (j mod ?N)) = (j < W)"
    by (simp_all add: opt_inv_def)
  have pos: "0 < ?N" by (rule pow2_pos[OF assms(3)])
  have fpos: "0 < unat (free_write_cnt q)" using assms(2) by (simp add: unat_gt_0)
  have f1: "unat (free_write_cnt q - 1) = unat (free_write_cnt q) - 1"
    using assms(2) by (simp add: unat_minus_one)
  let ?b = "(blk q)[W mod ?N := (blk q ! (W mod ?N))\<lparr>avail := True\<rparr>]"
  have p: "push_opt CNT q = q\<lparr>blk := ?b,
      write_idx_opt := (write_idx_opt q + 1) AND MASK CNT,
      free_write_cnt := free_write_cnt q - 1\<rparr>"
    by (simp add: push_opt_def Let_def wi)
  have a: "avail (?b ! (j mod ?N)) = (j < Suc W)" if "R \<le> j" "j < R + ?N" for j
  proof (cases "j = W")
    case True
    then show ?thesis using len pos by simp
  next
    case False
    have "j mod ?N \<noteq> W mod ?N"
    proof (cases "j < W")
      case True
      then have "W - j < ?N" using that fr by simp
      from mod_neq_of_close[OF True this] show ?thesis .
    next
      case False
      with \<open>j \<noteq> W\<close> have "W < j" by simp
      moreover have "j - W < ?N" using that le by simp
      ultimately show ?thesis using mod_neq_of_close[of W j ?N] by simp
    qed
    then show ?thesis using av[OF that] False by auto
  qed
  show ?thesis
    unfolding opt_inv_def p
    using len ri le fr fpos f1 a next_index[OF assms(3) wi] by simp
qed

lemma front_opt_cases:
  assumes "opt_inv CNT W R q" "is_pow2 CNT"
  shows "front_opt q = (if R = W then None else Some (R mod unat CNT))"
proof -
  have pos: "0 < unat CNT" by (rule pow2_pos[OF assms(2)])
  from assms(1) have ri: "unat (read_idx_opt q) = R mod unat CNT" and le: "R \<le> W"
    and av: "\<And>j. R \<le> j \<Longrightarrow> j < R + unat CNT \<Longrightarrow> avail (blk q ! (j mod unat CNT)) = (j < W)"
    by (simp_all add: opt_inv_def)
  from av[of R] pos have "avail (blk q ! (R mod unat CNT)) = (R < W)" by simp
  then show ?thesis using ri le by (auto simp: front_opt_def Let_def)
qed

lemma pop_opt_inv:
  assumes "opt_inv CNT W R q" "R < W" "is_pow2 CNT"
  shows "opt_inv CNT W (Suc R) (pop_opt CNT q)"
proof -
  let ?N = "unat CNT"
  from assms(1) have len: "length (blk q) = ?N"
    and wi: "unat (write_idx_opt q) = W mod ?N" and ri: "unat (read_idx_opt q) = R mod ?N"
    and le: "R \<le> W" and fr: "unat (free_write_cnt q) + W < R + ?N"
    and av: "\<And>j. R \<le> j \<Longrightarrow> j < R + ?N \<Longrightarrow> avail (blk q ! (j mod ?N)) = (j < W)"
    by (simp_all add: opt_inv_def)
  have pos: "0 < ?N" by (rule pow2_pos[OF assms(3)])
  let ?b = "(blk q)[R mod ?N := (blk q ! (R mod ?N))\<lparr>avail := False\<rparr>]"
  have p: "pop_opt CNT q = q\<lparr>blk := ?b, read_idx_opt := (read_idx_opt q + 1) AND MASK CNT\<rparr>"
    by (simp add: pop_opt_def Let_def ri)
  have a: "avail (?b ! (j mod ?N)) = (j < W)" if "Suc R \<le> j" "j < Suc R + ?N" for j
  proof (cases "j = R + ?N")
    case True
    then show ?thesis using len pos fr by simp
  next
    case False
    with that have lt: "j < R + ?N" by simp
    have "R < j" "j - R < ?N" using that lt by simp_all
    from mod_neq_of_close[OF this] have "R mod ?N \<noteq> j mod ?N" .
    then show ?thesis using av[of j] that lt by simp
  qed
  show ?thesis
    unfolding opt_inv_def p
    using len wi assms(2) fr a next_index[OF assms(3) ri] by simp
qed

section \<open>Clients of SPSCQueueOPT\<close>

lemma free_write_cnt_pop_opt: "free_write_cnt (pop_opt CNT q) = free_write_cnt q"
  by (simp add: pop_opt_def Let_def)

lemma step_opt_inv:
  assumes "is_pow2 CNT" "client_inv_opt CNT W R s" "step_opt CNT c s = Some s1"
  shows "client_inv_opt CNT (W + (if c = Push then 1 else 0)) (R + (if c = Pop then 1 else 0)) s1"
proof -
  obtain q wp rp where s: "s = (q, wp, rp)" by (cases s)
  from assms(2) s have inv: "opt_inv CNT W R q"
    and wp: "\<And>p. wp = Some p \<Longrightarrow> free_write_cnt q \<noteq> 0 \<and> p = W mod unat CNT"
    and rp: "\<And>p. rp = Some p \<Longrightarrow> R < W \<and> p = R mod unat CNT"
    by (auto simp: client_inv_opt_def)
  show ?thesis
  proof (cases c)
    case Alloc
    then have s1: "s1 = (snd (alloc_opt CNT q), fst (alloc_opt CNT q), rp)"
      using assms(3) s by (auto split: prod.splits)
    have "free_write_cnt (snd (alloc_opt CNT q)) \<noteq> 0 \<and> p = W mod unat CNT"
      if "fst (alloc_opt CNT q) = Some p" for p
      using that alloc_opt_cases(1)[OF inv assms(1)] alloc_opt_ok_count[of CNT q]
      by (simp split: if_splits)
    then show ?thesis
      using Alloc s1 rp alloc_opt_cases(2)[OF inv assms(1)]
      by (simp add: client_inv_opt_def)
  next
    case (Write x)
    then obtain p where "wp = Some p"
      and s1: "s1 = (q\<lparr>blk := (blk q)[p := (blk q ! p)\<lparr>bdata := x\<rparr>]\<rparr>, wp, rp)"
      using assms(3) s by (auto split: option.splits)
    then show ?thesis
      using Write wp rp opt_inv_bdata[OF inv, of p x] by (simp add: client_inv_opt_def)
  next
    case Push
    then obtain p where p: "wp = Some p" and s1: "s1 = (push_opt CNT q, None, rp)"
      using assms(3) s by (auto split: option.splits)
    from p wp have "free_write_cnt q \<noteq> 0" by simp
    from push_opt_inv[OF inv this assms(1)] s1 Push rp show ?thesis
      by (fastforce simp: client_inv_opt_def)
  next
    case Front
    then have s1: "s1 = (q, wp, front_opt q)" using assms(3) s by simp
    from inv have "R \<le> W" by (simp add: opt_inv_def)
    then show ?thesis
      using Front s1 inv wp front_opt_cases[OF inv assms(1)]
      by (simp add: client_inv_opt_def split: if_splits)
  next
    case Pop
    then obtain p where p: "rp = Some p" and s1: "s1 = (pop_opt CNT q, wp, None)"
      using assms(3) s by (auto split: option.splits)
    from p rp have "R < W" by simp
    from pop_opt_inv[OF inv this assms(1)] s1 Pop wp show ?thesis
      by (simp add: client_inv_opt_def free_write_cnt_pop_opt)
  qed
qed

lemma exec_opt_inv:
  assumes "is_pow2 CNT"
  shows "client_inv_opt CNT W R s \<Longrightarrow> exec_opt CNT cs s = Some s1 \<Longrightarrow>
         client_inv_opt CNT (W + count_list cs Push) (R + count_list cs Pop) s1"
proof (induction cs arbitrary: W R s)
  case Nil
  then show ?case by simp
next
  case (Cons c cs)
  from Cons.prems(2) obtain s2 where c: "step_opt CNT c s = Some s2"
    and cs: "exec_opt CNT cs s2 = Some s1"
    by (auto split: option.splits)
  from Cons.IH[OF step_opt_inv[OF assms Cons.prems(1) c] cs] show ?case
    by (cases "c = Push"; cases "c = Pop") (simp_all add: add.assoc)
qed

lemma client_inv_opt_init:
  "is_pow2 CNT \<Longrightarrow> client_inv_opt CNT 0 0 (init_opt CNT d, None, None)"
  by (simp add: client_inv_opt_def opt_inv_init)

lemma is_pow2_1: "is_pow2 1" by (simp add: is_pow2_def)

lemma is_pow2_2: "is_pow2 2" by (simp add: is_pow2_def)

lemma is_pow2_4: "is_pow2 4" by (simp add: is_pow2_def)

lemma client_inv_opt_one:
  assumes "client_inv_opt 1 W R (q, wp, rp)"
  shows "W = R" "free_write_cnt q = 0" "wp = None" "rp = None"
proof -
  from assms have inv: "opt_inv 1 W R q" by (simp add: client_inv_opt_def)
  then have *: "R \<le> W" "unat (free_write_cnt q) + W < R + 1" by (simp_all add: opt_inv_def)
  then show wr: "W = R" by simp
  from * have "unat (free_write_cnt q) = 0" by simp
  then show f: "free_write_cnt q = 0" by (simp only: unat_eq_0)
  from assms f show "wp = None" by (cases wp) (simp_all add: client_inv_opt_def)
  from assms wr show "rp = None" by (cases rp) (simp_all add: client_inv_opt_def)
qed

lemma exec_opt_one:
  "client_inv_opt 1 W R s \<Longrightarrow> exec_opt 1 cs s = Some s1 \<Longrightarrow>
   Push \<notin> set cs \<and> Pop \<notin> set cs \<and> (\<forall>x. Write x \<notin> set cs)"
proof (induction cs arbitrary: s)
  case Nil
  then show ?case by simp
next
  case (Cons c cs)
  obtain q wp rp where s: "s = (q, wp, rp)" by (cases s)
  from Cons.prems(2) obtain s2 where c: "step_opt 1 c s = Some s2"
    and cs: "exec_opt 1 cs s2 = Some s1"
    by (auto split: option.splits)
  from client_inv_opt_one[OF Cons.prems(1)[unfolded s]] have n: "wp = None" "rp = None" "W = R"
    by simp_all
  from c s n have c': "c \<noteq> Push \<and> c \<noteq> Pop \<and> (\<forall>x. c \<noteq> Write x)" by (cases c) auto
  from step_opt_inv[OF is_pow2_1 Cons.prems(1) c] c'
  have "client_inv_opt 1 W R s2" by simp
  from Cons.IH[OF this cs] c' show ?case by auto
qed

lemma bdata_push_opt: "bdata (blk (push_opt CNT q) ! i) = bdata (blk q ! i)"
  by (cases "unat (write_idx_opt q) < length (blk q)")
    (auto simp: push_opt_def Let_def nth_list_update list_update_beyond)

lemma bdata_pop_opt: "bdata (blk (pop_opt CNT q) ! i) = bdata (blk q ! i)"
  by (cases "unat (read_idx_opt q) < length (blk q)")
    (auto simp: pop_opt_def Let_def nth_list_update list_update_beyond)

lemma tryPush_opt_full:
  assumes "opt_inv CNT W R q" "Suc W = R + unat CNT" "is_pow2 CNT"
  shows "tryPush_opt CNT writer (e, q) = (False, e, q)"
proof -
  have "fst (alloc_opt CNT q) = None" using alloc_opt_cases(1)[OF assms(1,3)] assms(2) by simp
  then show ?thesis by (simp add: tryPush_opt_fail alloc_opt_None_D)
qed

lemma tryPush_opt_not_full:
  assumes "opt_inv CNT W R q" "Suc W \<noteq> R + unat CNT" "is_pow2 CNT"
  shows "\<exists>q1. tryPush_opt CNT writer (e, q) =
           (True, fst (writer e (bdata (blk q ! (W mod unat CNT)))), q1) \<and>
           opt_inv CNT (Suc W) R q1 \<and>
           (\<forall>i<unat CNT. bdata (blk q1 ! i) =
              (if i = W mod unat CNT then snd (writer e (bdata (blk q ! (W mod unat CNT))))
               else bdata (blk q ! i)))"
proof -
  let ?a = "snd (alloc_opt CNT q)"
  let ?p = "W mod unat CNT"
  let ?x = "snd (writer e (bdata (blk q ! ?p)))"
  let ?q2 = "?a\<lparr>blk := (blk ?a)[?p := (blk ?a ! ?p)\<lparr>bdata := ?x\<rparr>]\<rparr>"
  have p: "fst (alloc_opt CNT q) = Some ?p" using alloc_opt_cases(1)[OF assms(1,3)] assms(2) by simp
  then have f: "free_write_cnt ?a \<noteq> 0" using alloc_opt_ok_count[of CNT q] by simp
  have i: "opt_inv CNT W R ?a" by (rule alloc_opt_cases(2)[OF assms(1,3)])
  have b: "blk ?a = blk q" by (rule alloc_opt_frame)
  from assms(1) have len: "length (blk q) = unat CNT" by (simp add: opt_inv_def)
  have i2: "opt_inv CNT W R ?q2" by (rule opt_inv_bdata[OF i])
  have f2: "free_write_cnt ?q2 \<noteq> 0" using f by simp
  have i3: "opt_inv CNT (Suc W) R (push_opt CNT ?q2)" by (rule push_opt_inv[OF i2 f2 assms(3)])
  have t: "tryPush_opt CNT writer (e, q) =
      (True, fst (writer e (bdata (blk q ! ?p))), push_opt CNT ?q2)"
    by (simp add: tryPush_opt_ok[OF p] call_slot_opt_def b split: prod.splits)
  have d: "bdata (blk (push_opt CNT ?q2) ! i) = (if i = ?p then ?x else bdata (blk q ! i))"
    if "i < unat CNT" for i
    using that len by (simp add: bdata_push_opt b nth_list_update)
  from t i3 d show ?thesis by blast
qed

lemma tryPop_opt_cases:
  assumes "opt_inv CNT W R q" "is_pow2 CNT"
  shows "tryPop_opt CNT reader (e, q) =
     (if R = W then (False, e, q)
      else (True, fst (reader e (bdata (blk q ! (R mod unat CNT)))),
            pop_opt CNT (q\<lparr>blk := (blk q)[R mod unat CNT :=
              (blk q ! (R mod unat CNT))\<lparr>bdata := snd (reader e (bdata (blk q ! (R mod unat CNT))))\<rparr>]\<rparr>)))"
  using front_opt_cases[OF assms]
  by (simp add: tryPop_opt_def call_slot_opt_def split: prod.splits)

lemma tryPop_opt_load:
  assumes "opt_inv CNT W R q" "is_pow2 CNT" "R < W"
  shows "tryPop_opt CNT load_value (outs, q) =
           (True, outs @ [bdata (blk q ! (R mod unat CNT))], pop_opt CNT q)"
proof -
  have "q\<lparr>blk := (blk q)[R mod unat CNT :=
              (blk q ! (R mod unat CNT))\<lparr>bdata := bdata (blk q ! (R mod unat CNT))\<rparr>]\<rparr> = q"
    by simp
  then show ?thesis
    using tryPop_opt_cases[OF assms(1,2), of load_value outs] assms(3)
    by (simp add: load_value_def)
qed

lemma run_inv_optI:
  "opt_inv CNT (length ins) (length outs) q \<Longrightarrow> outs = take (length outs) ins \<Longrightarrow>
   (\<And>j. length outs \<le> j \<Longrightarrow> j < length ins \<Longrightarrow> bdata (blk q ! (j mod unat CNT)) = ins ! j) \<Longrightarrow>
   run_inv_opt CNT (ins, outs, q)"
  by (simp add: run_inv_opt_def)

lemma run_op_opt_inv:
  assumes "is_pow2 CNT" "run_inv_opt CNT s"
  shows "run_inv_opt CNT (run_op_opt CNT op s) \<and>
         fifo_of (run_op_opt CNT op s) = fifo_op (unat CNT - 1) op (fifo_of s)"
proof -
  obtain ins outs q where s: "s = (ins, outs, q)" by (cases s)
  let ?N = "unat CNT"
  let ?W = "length ins" and ?R = "length outs"
  from assms(2) s have inv: "opt_inv CNT ?W ?R q"
    and outs: "outs = take ?R ins"
    and slots: "\<And>j. ?R \<le> j \<Longrightarrow> j < ?W \<Longrightarrow> bdata (blk q ! (j mod ?N)) = ins ! j"
    by (auto simp: run_inv_opt_def)
  from inv have bounds: "?R \<le> ?W" "?W < ?R + ?N" and len: "length (blk q) = ?N"
    by (simp_all add: opt_inv_def)
  have Npos: "0 < ?N" by (rule pow2_pos[OF assms(1)])
  show ?thesis
  proof (cases op)
    case (TryPush v)
    show ?thesis
    proof (cases "Suc ?W = ?R + ?N")
      case True
      have "run_op_opt CNT op s = s"
        using TryPush s tryPush_opt_full[OF inv True assms(1), of "store_value v" ins] by simp
      then show ?thesis using assms(2) TryPush s True by (simp add: fifo_of_def)
    next
      case False
      with bounds have lt: "Suc ?W < ?R + ?N" by simp
      from tryPush_opt_not_full[OF inv False assms(1), of "store_value v" ins]
      obtain q1 where t: "tryPush_opt CNT (store_value v) (ins, q) = (True, ins @ [v], q1)"
        and i1: "opt_inv CNT (Suc ?W) ?R q1"
        and d1: "\<And>i. i < ?N \<Longrightarrow> bdata (blk q1 ! i) = (if i = ?W mod ?N then v else bdata (blk q ! i))"
        by (auto simp: store_value_def)
      have r: "run_op_opt CNT op s = (ins @ [v], outs, q1)" using TryPush s t by simp
      have "run_inv_opt CNT (ins @ [v], outs, q1)"
      proof (rule run_inv_optI)
        show "opt_inv CNT (length (ins @ [v])) ?R q1" using i1 by simp
        show "outs = take ?R (ins @ [v])" using outs bounds by simp
        show "bdata (blk q1 ! (j mod ?N)) = (ins @ [v]) ! j"
          if "?R \<le> j" "j < length (ins @ [v])" for j
        proof (cases "j = ?W")
          case True
          then show ?thesis using d1[of "j mod ?N"] Npos by simp
        next
          case False
          with that have jl: "j < ?W" by simp
          then have "?W - j < ?N" using that(1) lt by simp
          from mod_neq_of_close[OF jl this] have "j mod ?N \<noteq> ?W mod ?N" .
          then show ?thesis using slots[OF that(1) jl] jl d1[of "j mod ?N"] Npos
            by (simp add: nth_append)
        qed
      qed
      then show ?thesis using r TryPush s lt bounds by (simp add: fifo_of_def)
    qed
  next
    case TryPop
    show ?thesis
    proof (cases "?R = ?W")
      case True
      then have "run_op_opt CNT op s = s"
        using TryPop s tryPop_opt_cases[OF inv assms(1), of load_value outs] by simp
      then show ?thesis using assms(2) TryPop s True by (simp add: fifo_of_def)
    next
      case False
      with bounds have lt: "?R < ?W" by simp
      have x: "bdata (blk q ! (?R mod ?N)) = ins ! ?R" using slots[of ?R] lt by simp
      have r: "run_op_opt CNT op s = (ins, outs @ [ins ! ?R], pop_opt CNT q)"
        using TryPop s x tryPop_opt_load[OF inv assms(1) lt, of outs] by simp
      have "run_inv_opt CNT (ins, outs @ [ins ! ?R], pop_opt CNT q)"
      proof (rule run_inv_optI)
        show "opt_inv CNT ?W (length (outs @ [ins ! ?R])) (pop_opt CNT q)"
          using pop_opt_inv[OF inv lt assms(1)] by simp
        show "outs @ [ins ! ?R] = take (length (outs @ [ins ! ?R])) ins"
          using outs lt by (simp add: take_Suc_conv_app_nth)
        show "bdata (blk (pop_opt CNT q) ! (j mod ?N)) = ins ! j"
          if "length (outs @ [ins ! ?R]) \<le> j" "j < ?W" for j
          using slots[of j] that by (simp add: bdata_pop_opt)
      qed
      moreover have "drop ?R ins = ins ! ?R # drop (Suc ?R) ins"
        using lt by (simp add: Cons_nth_drop_Suc)
      ultimately show ?thesis using r TryPop s by (simp add: fifo_of_def)
    qed
  qed
qed

lemma run_opt_refines:
  assumes "is_pow2 CNT"
  shows "run_inv_opt CNT s \<Longrightarrow>
         run_inv_opt CNT (run_opt CNT ops s) \<and>
         fifo_of (run_opt CNT ops s) = fifo_run (unat CNT - 1) ops (fifo_of s)"
proof (induction ops arbitrary: s)
  case Nil
  then show ?case by (simp add: run_opt_def fifo_run_def)
next
  case (Cons op ops)
  from run_op_opt_inv[OF assms Cons.prems, of op]
  have 1: "run_inv_opt CNT (run_op_opt CNT op s)"
    and 2: "fifo_of (run_op_opt CNT op s) = fifo_op (unat CNT - 1) op (fifo_of s)" by simp_all
  from Cons.IH[OF 1] 2 show ?case by (simp add: run_opt_def fifo_run_def)
qed

lemma run_inv_opt_init: "is_pow2 CNT \<Longrightarrow> run_inv_opt CNT ([], [], init_opt CNT d)"
  by (simp add: run_inv_opt_def opt_inv_init)

section \<open>The abstraction functions\<close>

lemma int_mod_diff_aux:
  assumes "R \<le> W" "W < R + n"
  shows "(int (W mod n) - int (R mod n)) mod int n = int (W - R)"
proof -
  have "(int (W mod n) - int (R mod n)) mod int n = (int W mod int n - int R mod int n) mod int n"
    by (simp only: zmod_int)
  also have "\<dots> = (int W - int R) mod int n" by (rule mod_diff_eq)
  also have "int W - int R = int (W - R)" using assms(1) by simp
  also have "int (W - R) mod int n = int (W - R)"
    using assms by (intro mod_pos_pos_trivial) linarith+
  finally show ?thesis .
qed

lemma used_count_eq:
  assumes "is_pow2 CNT" "unat rd = R mod unat CNT" "unat wr = W mod unat CNT"
    "R \<le> W" "W < R + unat CNT"
  shows "unat ((wr - rd) AND MASK CNT) = W - R"
proof -
  define n where "n = unat CNT"
  have e: "wr - rd = word_of_int (uint wr - uint rd)" by simp
  have u: "uint rd = int (R mod n)" "uint wr = int (W mod n)"
    by (simp_all only: uint_nat assms(2,3) n_def)
  have "uint ((wr - rd) AND MASK CNT) = (uint wr - uint rd) mod int n"
    by (simp only: uint_and_mask[OF assms(1)] e uint_mod_cancel[OF assms(1)] n_def)
  also have "\<dots> = int (W - R)"
    unfolding u using assms(4,5) unfolding n_def[symmetric] by (rule int_mod_diff_aux)
  finally have "int (unat ((wr - rd) AND MASK CNT)) = int (W - R)"
    by (simp only: uint_nat)
  then show ?thesis by (simp only: of_nat_eq_iff)
qed

lemma int_mod_add_aux: "(int (R mod n) + int i) mod int n = int ((R + i) mod n)"
proof -
  have "int ((R + i) mod n) = int ((R mod n + i) mod n)" by (simp only: mod_add_left_eq)
  also have "\<dots> = (int (R mod n) + int i) mod int n" by (simp only: zmod_int of_nat_add)
  finally show ?thesis by (rule sym)
qed

lemma slot_offset:
  assumes "is_pow2 CNT" "unat rd = R mod unat CNT"
  shows "unat ((rd + of_nat i) AND MASK CNT) = (R + i) mod unat CNT"
proof -
  define n where "n = unat CNT"
  have e: "rd + of_nat i = word_of_int (uint rd + int i)" by simp
  have u: "uint rd = int (R mod n)" by (simp only: uint_nat assms(2) n_def)
  have "uint ((rd + of_nat i) AND MASK CNT) = (uint rd + int i) mod int n"
    by (simp only: uint_and_mask[OF assms(1)] e uint_mod_cancel[OF assms(1)] n_def)
  also have "\<dots> = int ((R + i) mod n)" unfolding u by (rule int_mod_add_aux)
  finally have "int (unat ((rd + of_nat i) AND MASK CNT)) = int ((R + i) mod n)"
    by (simp only: uint_nat)
  then show ?thesis unfolding n_def by (simp only: of_nat_eq_iff)
qed

lemma contents_run_inv:
  assumes "is_pow2 CNT" "run_inv CNT (ins, outs, q)"
  shows "contents CNT q = drop (length outs) ins"
proof -
  let ?W = "length ins" and ?R = "length outs" and ?N = "unat CNT"
  from assms(2) have inv: "queue_inv CNT ?W ?R q"
    and slots: "\<And>j. ?R \<le> j \<Longrightarrow> j < ?W \<Longrightarrow> data q ! (j mod ?N) = ins ! j"
    by (auto simp: run_inv_def)
  from inv have r: "read_idx q = of_nat ?R" and le: "?R \<le> ?W" by (simp_all add: queue_inv_def)
  have n: "unat (write_idx q - read_idx q) = ?W - ?R" by (rule unat_diff_cursors[OF inv])
  have s: "unat ((read_idx q + of_nat i) AND MASK CNT) = (?R + i) mod ?N" for i
  proof -
    have "read_idx q + of_nat i = of_nat (?R + i)" using r by simp
    then show ?thesis by (simp only: slot_of_cursor[OF assms(1)])
  qed
  show ?thesis
    unfolding contents_def n s
    by (rule nth_equalityI) (simp_all add: slots)
qed

lemma contents_run_inv_opt:
  assumes "is_pow2 CNT" "run_inv_opt CNT (ins, outs, q)"
  shows "contents_opt CNT q = drop (length outs) ins"
proof -
  let ?W = "length ins" and ?R = "length outs" and ?N = "unat CNT"
  from assms(2) have inv: "opt_inv CNT ?W ?R q"
    and slots: "\<And>j. ?R \<le> j \<Longrightarrow> j < ?W \<Longrightarrow> bdata (blk q ! (j mod ?N)) = ins ! j"
    by (auto simp: run_inv_opt_def)
  from inv have wi: "unat (write_idx_opt q) = ?W mod ?N" and ri: "unat (read_idx_opt q) = ?R mod ?N"
    and le: "?R \<le> ?W" and lt: "?W < ?R + ?N"
    by (simp_all add: opt_inv_def)
  have n: "unat ((write_idx_opt q - read_idx_opt q) AND MASK CNT) = ?W - ?R"
    by (rule used_count_eq[OF assms(1) ri wi le lt])
  have s: "unat ((read_idx_opt q + of_nat i) AND MASK CNT) = (?R + i) mod ?N" for i
    by (rule slot_offset[OF assms(1) ri])
  show ?thesis
    unfolding contents_opt_def n s
    by (rule nth_equalityI) (simp_all add: slots)
qed

lemma fifo_run_logs:
  "fifo_run cap ops (ins, outs, xs) = (ins1, outs1, xs1) \<Longrightarrow> outs @ xs = ins \<Longrightarrow>
   outs1 @ xs1 = ins1"
proof (induction ops arbitrary: ins outs xs)
  case Nil
  then show ?case by (simp add: fifo_run_def)
next
  case (Cons op ops)
  obtain ins2 outs2 xs2 where 2: "fifo_op cap op (ins, outs, xs) = (ins2, outs2, xs2)"
    by (cases "fifo_op cap op (ins, outs, xs)")
  have "outs2 @ xs2 = ins2"
    using 2 Cons.prems(2) by (cases op) (auto split: if_splits list.splits)
  moreover have "fifo_run cap ops (ins2, outs2, xs2) = (ins1, outs1, xs1)"
    using Cons.prems(1) 2 by (simp add: fifo_run_def)
  ultimately show ?case by (rule Cons.IH[rotated])
qed

lemma fifo_calls:
  assumes "is_pow2 CNT"
  shows "abstraction CNT (run CNT ops ([], [], init CNT d)) = fifo_run (unat CNT) ops ([], [], []) \<and>
         prefix (fst (snd (run CNT ops ([], [], init CNT d))))
           (fst (run CNT ops ([], [], init CNT d))) \<and>
         abstraction_opt CNT (run_opt CNT ops ([], [], init_opt CNT d)) =
           fifo_run (unat CNT - 1) ops ([], [], []) \<and>
         prefix (fst (snd (run_opt CNT ops ([], [], init_opt CNT d))))
           (fst (run_opt CNT ops ([], [], init_opt CNT d)))"
proof -
  obtain ins outs q where r: "run CNT ops ([], [], init CNT d) = (ins, outs, q)"
    by (cases "run CNT ops ([], [], init CNT d)")
  obtain ins' outs' q' where r': "run_opt CNT ops ([], [], init_opt CNT d) = (ins', outs', q')"
    by (cases "run_opt CNT ops ([], [], init_opt CNT d)")
  from run_refines[OF assms run_inv_init, of ops d] r
  have i: "run_inv CNT (ins, outs, q)"
    and f: "fifo_of (ins, outs, q) = fifo_run (unat CNT) ops ([], [], [])"
    by (simp_all add: fifo_of_def)
  from run_opt_refines[OF assms run_inv_opt_init[OF assms], of ops d] r'
  have i': "run_inv_opt CNT (ins', outs', q')"
    and f': "fifo_of (ins', outs', q') = fifo_run (unat CNT - 1) ops ([], [], [])"
    by (simp_all add: fifo_of_def)
  have 1: "abstraction CNT (ins, outs, q) = fifo_run (unat CNT) ops ([], [], [])"
    using f contents_run_inv[OF assms i] by (simp add: abstraction_def fifo_of_def)
  have 2: "abstraction_opt CNT (ins', outs', q') = fifo_run (unat CNT - 1) ops ([], [], [])"
    using f' contents_run_inv_opt[OF assms i'] by (simp add: abstraction_opt_def fifo_of_def)
  from i have "outs = take (length outs) ins" by (simp add: run_inv_def)
  then have 3: "prefix outs ins" by (metis take_is_prefix)
  from i' have "outs' = take (length outs') ins'" by (simp add: run_inv_opt_def)
  then have 4: "prefix outs' ins'" by (metis take_is_prefix)
  from 1 2 3 4 show ?thesis by (simp add: r r')
qed

lemma fifo_run_pushes:
  "length xs + length vs \<le> cap \<Longrightarrow>
   fifo_run cap (map TryPush vs) (ins, outs, xs) = (ins @ vs, outs, xs @ vs)"
proof (induction vs arbitrary: ins xs)
  case Nil
  then show ?case by (simp add: fifo_run_def)
next
  case (Cons v vs)
  have "fifo_run cap (map TryPush (v # vs)) (ins, outs, xs) =
        fifo_run cap (map TryPush vs) (ins @ [v], outs, xs @ [v])"
    using Cons.prems by (simp add: fifo_run_def)
  also have "\<dots> = ((ins @ [v]) @ vs, outs, (xs @ [v]) @ vs)"
    using Cons.prems by (intro Cons.IH) simp
  finally show ?case by simp
qed

lemma replicate_numeral: "replicate (numeral k) x = x # replicate (pred_numeral k) x"
  by (simp add: numeral_eq_Suc)

section \<open>Interleaved steps\<close>

lemma steps_invI:
  "run_inv CNT (ins, outs, q) \<Longrightarrow>
   (\<And>p. wp = Some p \<Longrightarrow> write_idx q - read_idx_cach q \<noteq> CNT \<and> p = length ins mod unat CNT) \<Longrightarrow>
   (\<And>p. rp = Some p \<Longrightarrow> length outs < length ins \<and> p = length outs mod unat CNT) \<Longrightarrow>
   steps_inv CNT (ins, outs, q, wp, rp)"
  by (simp add: steps_inv_def)

lemma step_log_inv:
  assumes "is_pow2 CNT" "steps_inv CNT (ins, outs, s)" "step CNT c s = Some s1"
  shows "steps_inv CNT (log_push c s ins, log_pop c s outs, s1)"
proof -
  obtain q wp rp where s: "s = (q, wp, rp)" by (cases s)
  let ?N = "unat CNT"
  let ?W = "length ins" and ?R = "length outs"
  from assms(2) s have ri: "run_inv CNT (ins, outs, q)"
    and wp: "\<And>p. wp = Some p \<Longrightarrow> write_idx q - read_idx_cach q \<noteq> CNT \<and> p = ?W mod ?N"
    and rp: "\<And>p. rp = Some p \<Longrightarrow> ?R < ?W \<and> p = ?R mod ?N"
    by (auto simp: steps_inv_def)
  from ri have inv: "queue_inv CNT ?W ?R q"
    and outs: "outs = take ?R ins"
    and slots: "\<And>j. ?R \<le> j \<Longrightarrow> j < ?W \<Longrightarrow> data q ! (j mod ?N) = ins ! j"
    by (auto simp: run_inv_def)
  from inv have bounds: "?R \<le> ?W" "?W \<le> ?R + ?N" and len: "length (data q) = ?N"
    by (simp_all add: queue_inv_def)
  have Npos: "0 < ?N" by (rule pow2_pos[OF assms(1)])
  show ?thesis
  proof (cases c)
    case Alloc
    let ?a = "alloc CNT q"
    have s1: "s1 = (snd ?a, fst ?a, rp)" using Alloc assms(3) s by (auto split: prod.splits)
    have l: "log_push c s ins = ins" "log_pop c s outs = outs" using Alloc s by simp_all
    have "run_inv CNT (ins, outs, snd ?a)"
      using queue_inv_alloc[OF inv] outs slots by (intro run_invI) (simp_all add: alloc_frame)
    moreover have "write_idx (snd ?a) - read_idx_cach (snd ?a) \<noteq> CNT \<and> p = ?W mod ?N"
      if "fst ?a = Some p" for p
      using that alloc_cases[OF inv assms(1)] alloc_ok_cache[of CNT q] by (simp split: if_splits)
    ultimately show ?thesis unfolding s1 l using rp by (intro steps_invI) simp_all
  next
    case (Write x)
    then obtain p where p: "wp = Some p" and s1: "s1 = (q\<lparr>data := (data q)[p := x]\<rparr>, wp, rp)"
      using assms(3) s by (auto split: option.splits)
    have l: "log_push c s ins = ins" "log_pop c s outs = outs" using Write s by simp_all
    from wp[OF p] have c: "write_idx q - read_idx_cach q \<noteq> CNT" and pw: "p = ?W mod ?N" by simp_all
    have lt: "?W < ?R + ?N" by (rule queue_inv_push(2)[OF inv c])
    have "run_inv CNT (ins, outs, q\<lparr>data := (data q)[p := x]\<rparr>)"
    proof (rule run_invI)
      show "queue_inv CNT ?W ?R (q\<lparr>data := (data q)[p := x]\<rparr>)" by (rule queue_inv_data[OF inv])
      show "outs = take ?R ins" by (rule outs)
      show "data (q\<lparr>data := (data q)[p := x]\<rparr>) ! (j mod ?N) = ins ! j"
        if "?R \<le> j" "j < ?W" for j
      proof -
        have "?W - j < ?N" using that lt by simp
        from mod_neq_of_close[OF that(2) this] have "j mod ?N \<noteq> p" using pw by simp
        then show ?thesis using slots[OF that] by simp
      qed
    qed
    then show ?thesis unfolding s1 l using wp rp by (intro steps_invI) simp_all
  next
    case Push
    then obtain p where p: "wp = Some p" and s1: "s1 = (push q, None, rp)"
      using assms(3) s by (auto split: option.splits)
    from wp[OF p] have c: "write_idx q - read_idx_cach q \<noteq> CNT" and pw: "p = ?W mod ?N" by simp_all
    have l: "log_push c s ins = ins @ [data q ! (?W mod ?N)]" "log_pop c s outs = outs"
      using Push s p pw by simp_all
    let ?v = "data q ! (?W mod ?N)"
    have "run_inv CNT (ins @ [?v], outs, push q)"
    proof (rule run_invI)
      show "queue_inv CNT (length (ins @ [?v])) ?R (push q)"
        using queue_inv_push(1)[OF inv c] by simp
      show "outs = take ?R (ins @ [?v])" using outs bounds by simp
      show "data (push q) ! (j mod ?N) = (ins @ [?v]) ! j"
        if "?R \<le> j" "j < length (ins @ [?v])" for j
        using that slots[of j] by (cases "j = ?W") (simp_all add: push_def nth_append)
    qed
    moreover have "?R < length (ins @ [?v]) \<and> p' = ?R mod ?N" if "rp = Some p'" for p'
      using rp[OF that] by simp
    ultimately show ?thesis unfolding s1 l by (intro steps_invI) simp_all
  next
    case Front
    then have s1: "s1 = (q, wp, front CNT q)" using assms(3) s by simp
    have l: "log_push c s ins = ins" "log_pop c s outs = outs" using Front s by simp_all
    have "?R < ?W \<and> p = ?R mod ?N" if "front CNT q = Some p" for p
      using that front_inv[OF inv assms(1)] bounds by (simp split: if_splits)
    then show ?thesis unfolding s1 l using ri wp by (intro steps_invI) simp_all
  next
    case Pop
    then obtain p where p: "rp = Some p" and s1: "s1 = (pop q, wp, None)"
      using assms(3) s by (auto split: option.splits)
    from rp[OF p] have lt: "?R < ?W" and pr: "p = ?R mod ?N" by simp_all
    have x: "data q ! (?R mod ?N) = ins ! ?R" using slots[of ?R] lt by simp
    have l: "log_push c s ins = ins" "log_pop c s outs = outs @ [ins ! ?R]"
      using Pop s p pr x by simp_all
    have "run_inv CNT (ins, outs @ [ins ! ?R], pop q)"
    proof (rule run_invI)
      show "queue_inv CNT ?W (length (outs @ [ins ! ?R])) (pop q)"
        using queue_inv_pop[OF inv lt] by simp
      show "outs @ [ins ! ?R] = take (length (outs @ [ins ! ?R])) ins"
        using outs lt by (simp add: take_Suc_conv_app_nth)
      show "data (pop q) ! (j mod ?N) = ins ! j"
        if "length (outs @ [ins ! ?R]) \<le> j" "j < ?W" for j
        using slots[of j] that by (simp add: pop_def)
    qed
    moreover have "write_idx (pop q) - read_idx_cach (pop q) \<noteq> CNT \<and> p' = ?W mod ?N"
      if "wp = Some p'" for p'
      using wp[OF that] by (simp add: pop_def)
    ultimately show ?thesis unfolding s1 l by (intro steps_invI) simp_all
  qed
qed

lemma exec_log_inv:
  assumes "is_pow2 CNT"
  shows "steps_inv CNT x \<Longrightarrow> exec_log CNT cs x = Some x1 \<Longrightarrow> steps_inv CNT x1"
proof (induction cs arbitrary: x)
  case Nil
  then show ?case by simp
next
  case (Cons c cs)
  obtain ins outs s where x: "x = (ins, outs, s)" by (cases x)
  from Cons.prems(2) x obtain s2 where c: "step CNT c s = Some s2"
    and cs: "exec_log CNT cs (log_push c s ins, log_pop c s outs, s2) = Some x1"
    by (auto split: option.splits)
  from step_log_inv[OF assms Cons.prems(1)[unfolded x] c] cs show ?case by (rule Cons.IH)
qed

lemma steps_inv_init: "steps_inv CNT ([], [], init CNT d, None, None)"
  by (simp add: steps_inv_def run_inv_init)

lemma exec_log_prefix:
  assumes "is_pow2 CNT" "exec_log CNT cs ([], [], init CNT d, None, None) = Some (ins, outs, q, wp, rp)"
  shows "prefix outs ins \<and> contents CNT q = drop (length outs) ins"
proof -
  from exec_log_inv[OF assms(1) steps_inv_init assms(2)]
  have r: "run_inv CNT (ins, outs, q)" by (simp add: steps_inv_def)
  then have "outs = take (length outs) ins" by (simp add: run_inv_def)
  then have "prefix outs ins" by (metis take_is_prefix)
  with contents_run_inv[OF assms(1) r] show ?thesis by simp
qed

lemma steps_inv_optI:
  "run_inv_opt CNT (ins, outs, q) \<Longrightarrow>
   (\<And>p. wp = Some p \<Longrightarrow> free_write_cnt q \<noteq> 0 \<and> p = length ins mod unat CNT) \<Longrightarrow>
   (\<And>p. rp = Some p \<Longrightarrow> length outs < length ins \<and> p = length outs mod unat CNT) \<Longrightarrow>
   steps_inv_opt CNT (ins, outs, q, wp, rp)"
  by (simp add: steps_inv_opt_def)

lemma free_write_cnt_bdata:
  "free_write_cnt (q\<lparr>blk := b\<rparr>) = free_write_cnt q"
  by simp

lemma step_log_opt_inv:
  assumes "is_pow2 CNT" "steps_inv_opt CNT (ins, outs, s)" "step_opt CNT c s = Some s1"
  shows "steps_inv_opt CNT (log_push_opt c s ins, log_pop_opt c s outs, s1)"
proof -
  obtain q wp rp where s: "s = (q, wp, rp)" by (cases s)
  let ?N = "unat CNT"
  let ?W = "length ins" and ?R = "length outs"
  from assms(2) s have ri: "run_inv_opt CNT (ins, outs, q)"
    and wp: "\<And>p. wp = Some p \<Longrightarrow> free_write_cnt q \<noteq> 0 \<and> p = ?W mod ?N"
    and rp: "\<And>p. rp = Some p \<Longrightarrow> ?R < ?W \<and> p = ?R mod ?N"
    by (auto simp: steps_inv_opt_def)
  from ri have inv: "opt_inv CNT ?W ?R q"
    and outs: "outs = take ?R ins"
    and slots: "\<And>j. ?R \<le> j \<Longrightarrow> j < ?W \<Longrightarrow> bdata (blk q ! (j mod ?N)) = ins ! j"
    by (auto simp: run_inv_opt_def)
  from inv have bounds: "?R \<le> ?W" "unat (free_write_cnt q) + ?W < ?R + ?N"
    and len: "length (blk q) = ?N"
    by (simp_all add: opt_inv_def)
  have Npos: "0 < ?N" by (rule pow2_pos[OF assms(1)])
  show ?thesis
  proof (cases c)
    case Alloc
    let ?a = "alloc_opt CNT q"
    have s1: "s1 = (snd ?a, fst ?a, rp)" using Alloc assms(3) s by (auto split: prod.splits)
    have l: "log_push_opt c s ins = ins" "log_pop_opt c s outs = outs" using Alloc s by simp_all
    have "run_inv_opt CNT (ins, outs, snd ?a)"
      using alloc_opt_cases(2)[OF inv assms(1)] outs slots
      by (intro run_inv_optI) (simp_all add: alloc_opt_frame)
    moreover have "free_write_cnt (snd ?a) \<noteq> 0 \<and> p = ?W mod ?N" if "fst ?a = Some p" for p
      using that alloc_opt_cases(1)[OF inv assms(1)] alloc_opt_ok_count[of CNT q]
      by (simp split: if_splits)
    ultimately show ?thesis unfolding s1 l using rp by (intro steps_inv_optI) simp_all
  next
    case (Write x)
    let ?q1 = "\<lambda>p. q\<lparr>blk := (blk q)[p := (blk q ! p)\<lparr>bdata := x\<rparr>]\<rparr>"
    from Write obtain p where p: "wp = Some p" and s1: "s1 = (?q1 p, wp, rp)"
      using assms(3) s by (auto split: option.splits)
    have l: "log_push_opt c s ins = ins" "log_pop_opt c s outs = outs" using Write s by simp_all
    from wp[OF p] have c: "free_write_cnt q \<noteq> 0" and pw: "p = ?W mod ?N" by simp_all
    have lt: "?W < ?R + ?N" using bounds by simp
    have "run_inv_opt CNT (ins, outs, ?q1 p)"
    proof (rule run_inv_optI)
      show "opt_inv CNT ?W ?R (?q1 p)" by (rule opt_inv_bdata[OF inv])
      show "outs = take ?R ins" by (rule outs)
      show "bdata (blk (?q1 p) ! (j mod ?N)) = ins ! j" if "?R \<le> j" "j < ?W" for j
      proof -
        have "?W - j < ?N" using that lt by simp
        from mod_neq_of_close[OF that(2) this] have "j mod ?N \<noteq> p" using pw by simp
        then show ?thesis using slots[OF that] by simp
      qed
    qed
    then show ?thesis unfolding s1 l using wp rp by (intro steps_inv_optI) simp_all
  next
    case Push
    then obtain p where p: "wp = Some p" and s1: "s1 = (push_opt CNT q, None, rp)"
      using assms(3) s by (auto split: option.splits)
    from wp[OF p] have c: "free_write_cnt q \<noteq> 0" and pw: "p = ?W mod ?N" by simp_all
    have l: "log_push_opt c s ins = ins @ [bdata (blk q ! (?W mod ?N))]"
      "log_pop_opt c s outs = outs"
      using Push s p pw by simp_all
    let ?v = "bdata (blk q ! (?W mod ?N))"
    have "run_inv_opt CNT (ins @ [?v], outs, push_opt CNT q)"
    proof (rule run_inv_optI)
      show "opt_inv CNT (length (ins @ [?v])) ?R (push_opt CNT q)"
        using push_opt_inv[OF inv c assms(1)] by simp
      show "outs = take ?R (ins @ [?v])" using outs bounds by simp
      show "bdata (blk (push_opt CNT q) ! (j mod ?N)) = (ins @ [?v]) ! j"
        if "?R \<le> j" "j < length (ins @ [?v])" for j
        using that slots[of j] by (cases "j = ?W") (simp_all add: bdata_push_opt nth_append)
    qed
    moreover have "?R < length (ins @ [?v]) \<and> p' = ?R mod ?N" if "rp = Some p'" for p'
      using rp[OF that] by simp
    ultimately show ?thesis unfolding s1 l by (intro steps_inv_optI) simp_all
  next
    case Front
    then have s1: "s1 = (q, wp, front_opt q)" using assms(3) s by simp
    have l: "log_push_opt c s ins = ins" "log_pop_opt c s outs = outs" using Front s by simp_all
    have "?R < ?W \<and> p = ?R mod ?N" if "front_opt q = Some p" for p
      using that front_opt_cases[OF inv assms(1)] bounds by (simp split: if_splits)
    then show ?thesis unfolding s1 l using ri wp by (intro steps_inv_optI) simp_all
  next
    case Pop
    then obtain p where p: "rp = Some p" and s1: "s1 = (pop_opt CNT q, wp, None)"
      using assms(3) s by (auto split: option.splits)
    from rp[OF p] have lt: "?R < ?W" and pr: "p = ?R mod ?N" by simp_all
    have x: "bdata (blk q ! (?R mod ?N)) = ins ! ?R" using slots[of ?R] lt by simp
    have l: "log_push_opt c s ins = ins" "log_pop_opt c s outs = outs @ [ins ! ?R]"
      using Pop s p pr x by simp_all
    have "run_inv_opt CNT (ins, outs @ [ins ! ?R], pop_opt CNT q)"
    proof (rule run_inv_optI)
      show "opt_inv CNT ?W (length (outs @ [ins ! ?R])) (pop_opt CNT q)"
        using pop_opt_inv[OF inv lt assms(1)] by simp
      show "outs @ [ins ! ?R] = take (length (outs @ [ins ! ?R])) ins"
        using outs lt by (simp add: take_Suc_conv_app_nth)
      show "bdata (blk (pop_opt CNT q) ! (j mod ?N)) = ins ! j"
        if "length (outs @ [ins ! ?R]) \<le> j" "j < ?W" for j
        using slots[of j] that by (simp add: bdata_pop_opt)
    qed
    moreover have "free_write_cnt (pop_opt CNT q) \<noteq> 0 \<and> p' = ?W mod ?N" if "wp = Some p'" for p'
      using wp[OF that] by (simp add: free_write_cnt_pop_opt)
    ultimately show ?thesis unfolding s1 l by (intro steps_inv_optI) simp_all
  qed
qed

lemma exec_log_opt_inv:
  assumes "is_pow2 CNT"
  shows "steps_inv_opt CNT x \<Longrightarrow> exec_log_opt CNT cs x = Some x1 \<Longrightarrow> steps_inv_opt CNT x1"
proof (induction cs arbitrary: x)
  case Nil
  then show ?case by simp
next
  case (Cons c cs)
  obtain ins outs s where x: "x = (ins, outs, s)" by (cases x)
  from Cons.prems(2) x obtain s2 where c: "step_opt CNT c s = Some s2"
    and cs: "exec_log_opt CNT cs (log_push_opt c s ins, log_pop_opt c s outs, s2) = Some x1"
    by (auto split: option.splits)
  from step_log_opt_inv[OF assms Cons.prems(1)[unfolded x] c] cs show ?case by (rule Cons.IH)
qed

lemma steps_inv_opt_init: "is_pow2 CNT \<Longrightarrow> steps_inv_opt CNT ([], [], init_opt CNT d, None, None)"
  by (simp add: steps_inv_opt_def run_inv_opt_init)

lemma exec_log_opt_prefix:
  assumes "is_pow2 CNT"
    "exec_log_opt CNT cs ([], [], init_opt CNT d, None, None) = Some (ins, outs, q, wp, rp)"
  shows "prefix outs ins \<and> contents_opt CNT q = drop (length outs) ins"
proof -
  from exec_log_opt_inv[OF assms(1) steps_inv_opt_init[OF assms(1)] assms(2)]
  have r: "run_inv_opt CNT (ins, outs, q)" by (simp add: steps_inv_opt_def)
  then have "outs = take (length outs) ins" by (simp add: run_inv_opt_def)
  then have "prefix outs ins" by (metis take_is_prefix)
  with contents_run_inv_opt[OF assms(1) r] show ?thesis by simp
qed

lemma alloc_slot_bound:
  assumes "is_pow2 CNT" "fst (alloc CNT q) = Some p"
  shows "p < unat CNT"
proof -
  have "p = unat (write_idx q AND MASK CNT)"
    using assms(2) by (auto simp: alloc_def Let_def split: if_splits)
  then show ?thesis using pow2_pos[OF assms(1)] by (simp add: pow2_and_mask[OF assms(1)])
qed

text \<open>
  A \<open>tryPush\<close> call is the steps \<open>alloc\<close>, write, \<open>push\<close> of this client (or a failed
  \<open>alloc\<close> alone), and a \<open>tryPop\<close> call is \<open>front\<close>, \<open>pop\<close> (or a failed \<open>front\<close>
  alone), with the same logs.
\<close>

lemma tryPush_steps:
  assumes "is_pow2 CNT" "length (data q) = unat CNT"
  shows "exec_log CNT (if fst (alloc CNT q) = None then [Alloc] else [Alloc, Write v, Push])
           (ins, outs, q, wp, rp) =
         Some (fst (snd (tryPush CNT (store_value v) (ins, q))), outs,
               snd (snd (tryPush CNT (store_value v) (ins, q))), None, rp)"
proof (cases "fst (alloc CNT q)")
  case None
  then show ?thesis by (cases "alloc CNT q") (simp add: tryPush_fail)
next
  case (Some p)
  then obtain q1 where a: "alloc CNT q = (Some p, q1)" by (cases "alloc CNT q") simp
  have "p < length (data (snd (alloc CNT q)))"
    using alloc_slot_bound[OF assms(1) Some] assms(2) by (simp add: alloc_frame)
  then show ?thesis
    using a by (simp add: tryPush_def call_slot_def store_value_def)
qed

lemma tryPop_steps:
  "exec_log CNT (if front CNT q = None then [Front] else [Front, Pop]) (ins, outs, q, wp, rp) =
     Some (ins, fst (snd (tryPop CNT load_value (outs, q))),
           snd (snd (tryPop CNT load_value (outs, q))), wp, None)"
proof (cases "front CNT q")
  case None
  then show ?thesis by (simp add: tryPop_fail)
next
  case (Some p)
  then show ?thesis by (simp add: tryPop_ok call_slot_def load_value_def)
qed

lemma tryPush_opt_steps:
  assumes "length (blk q) = unat CNT" "unat (write_idx_opt q) < unat CNT"
  shows "exec_log_opt CNT (if fst (alloc_opt CNT q) = None then [Alloc] else [Alloc, Write v, Push])
           (ins, outs, q, wp, rp) =
         Some (fst (snd (tryPush_opt CNT (store_value v) (ins, q))), outs,
               snd (snd (tryPush_opt CNT (store_value v) (ins, q))), None, rp)"
proof (cases "fst (alloc_opt CNT q)")
  case None
  then show ?thesis by (cases "alloc_opt CNT q") (simp add: tryPush_opt_fail)
next
  case (Some p)
  have "p = unat (write_idx_opt q)"
    using Some by (auto simp: alloc_opt_def Let_def split: if_splits)
  then have "p < length (blk (snd (alloc_opt CNT q)))"
    using assms by (simp add: alloc_opt_frame)
  moreover obtain q1 where a: "alloc_opt CNT q = (Some p, q1)"
    using Some by (cases "alloc_opt CNT q") simp
  ultimately show ?thesis
    by (simp add: tryPush_opt_def call_slot_opt_def store_value_def)
qed

lemma tryPop_opt_steps:
  "exec_log_opt CNT (if front_opt q = None then [Front] else [Front, Pop]) (ins, outs, q, wp, rp) =
     Some (ins, fst (snd (tryPop_opt CNT load_value (outs, q))),
           snd (snd (tryPop_opt CNT load_value (outs, q))), wp, None)"
proof (cases "front_opt q")
  case None
  then show ?thesis by (simp add: tryPop_opt_fail)
next
  case (Some p)
  then show ?thesis by (simp add: tryPop_opt_ok call_slot_opt_def load_value_def)
qed

section \<open>The blockPush loop\<close>




section \<open>The slot under the pointer of the consumer\<close>

text \<open>
  While the consumer holds a pointer from \<open>front\<close>, no step of either thread changes
  the slot it points to: what the reader loads between \<open>front\<close> and \<open>pop\<close> is the
  value logged at \<open>pop\<close>.
\<close>

lemma step_keeps_front_slot:
  assumes "is_pow2 CNT" "steps_inv CNT (ins, outs, q, wp, Some p)"
    "step CNT c (q, wp, Some p) = Some (q1, wp1, rp1)"
  shows "data q1 ! p = data q ! p"
proof (cases c)
  case (Write x)
  let ?N = "unat CNT"
  from assms(2) have ri: "run_inv CNT (ins, outs, q)"
    and rp: "length outs < length ins" "p = length outs mod ?N"
    by (simp_all add: steps_inv_def)
  from Write assms(3) obtain pw where pw: "wp = Some pw" and q1: "q1 = q\<lparr>data := (data q)[pw := x]\<rparr>"
    by (auto split: option.splits)
  from assms(2) pw have c: "write_idx q - read_idx_cach q \<noteq> CNT" and w: "pw = length ins mod ?N"
    by (simp_all add: steps_inv_def)
  from ri have inv: "queue_inv CNT (length ins) (length outs) q" by (simp add: run_inv_def)
  have "length ins - length outs < ?N" using queue_inv_push(2)[OF inv c] rp(1) by arith
  from mod_neq_of_close[OF rp(1) this] have "p \<noteq> pw" using rp(2) w by simp
  then show ?thesis by (simp add: q1)
next
  case Alloc
  then have "q1 = snd (alloc CNT q)" using assms(3) by (auto split: prod.splits)
  then show ?thesis by (simp add: alloc_frame)
next
  case Push
  then show ?thesis using assms(3) by (auto simp: push_def split: option.splits)
next
  case Front
  then show ?thesis using assms(3) by simp
next
  case Pop
  then show ?thesis using assms(3) by (auto simp: pop_def)
qed

lemma step_opt_keeps_front_slot:
  assumes "is_pow2 CNT" "steps_inv_opt CNT (ins, outs, q, wp, Some p)"
    "step_opt CNT c (q, wp, Some p) = Some (q1, wp1, rp1)"
  shows "bdata (blk q1 ! p) = bdata (blk q ! p)"
proof (cases c)
  case (Write x)
  let ?N = "unat CNT"
  from assms(2) have ri: "run_inv_opt CNT (ins, outs, q)"
    and rp: "length outs < length ins" "p = length outs mod ?N"
    by (simp_all add: steps_inv_opt_def)
  from Write assms(3) obtain pw where pw: "wp = Some pw"
    and q1: "q1 = q\<lparr>blk := (blk q)[pw := (blk q ! pw)\<lparr>bdata := x\<rparr>]\<rparr>"
    by (auto split: option.splits)
  from assms(2) pw have w: "pw = length ins mod ?N" by (simp add: steps_inv_opt_def)
  from ri have "opt_inv CNT (length ins) (length outs) q" by (simp add: run_inv_opt_def)
  then have "unat (free_write_cnt q) + length ins < length outs + ?N" by (simp add: opt_inv_def)
  then have "length ins - length outs < ?N" using rp(1) by arith
  from mod_neq_of_close[OF rp(1) this] have "p \<noteq> pw" using rp(2) w by simp
  then show ?thesis by (simp add: q1)
next
  case Alloc
  then have "q1 = snd (alloc_opt CNT q)" using assms(3) by (auto split: prod.splits)
  then show ?thesis by (simp add: alloc_opt_frame)
next
  case Push
  then show ?thesis using assms(3) by (auto simp: bdata_push_opt split: option.splits)
next
  case Front
  then show ?thesis using assms(3) by simp
next
  case Pop
  then show ?thesis using assms(3) by (auto simp: bdata_pop_opt)
qed

section \<open>The abstract list of capacity zero\<close>

lemma fifo_op_zero: "fifo_op 0 op (ins, outs, []) = (ins, outs, [])"
  by (cases op) simp_all

lemma fifo_run_zero: "fifo_run 0 ops (ins, outs, []) = (ins, outs, [])"
  by (induction ops) (simp_all add: fifo_run_def fifo_op_zero)

section \<open>The retries of blockPush\<close>










section \<open>FIFO order and capacity\<close>

text \<open>
  Claim C1. For every sequence of \<open>tryPush\<close> and \<open>tryPop\<close> calls, in any order, run from
  the initial state, and for both variants: the values read by the successful \<open>tryPop\<close>
  calls are, in order, a prefix of the values written by the successful \<open>tryPush\<close>
  calls, and the queue refines the abstract FIFO list: the two logs and the contents of
  the ring are those of the list run on the same calls, with capacity \<open>CNT\<close> for
  SPSCQueue and \<open>CNT - 1\<close> for SPSCQueueOPT. The same holds when the steps of the calls
  interleave: for every valid sequence of \<open>alloc\<close>, writes, \<open>push\<close>, \<open>front\<close> and
  \<open>pop\<close>, the values popped are a prefix of the values pushed and the ring holds the
  rest. The memory orderings of the atomic accesses are not part of the model.
\<close>

theorem fifo_refinement:
  assumes "is_pow2 CNT"
  shows "abstraction CNT (run CNT ops ([], [], init CNT d)) = fifo_run (unat CNT) ops ([], [], []) \<and>
         prefix (fst (snd (run CNT ops ([], [], init CNT d))))
           (fst (run CNT ops ([], [], init CNT d))) \<and>
         abstraction_opt CNT (run_opt CNT ops ([], [], init_opt CNT d)) =
           fifo_run (unat CNT - 1) ops ([], [], []) \<and>
         prefix (fst (snd (run_opt CNT ops ([], [], init_opt CNT d))))
           (fst (run_opt CNT ops ([], [], init_opt CNT d))) \<and>
         (\<forall>ins outs s. exec_log CNT cs ([], [], init CNT d, None, None) = Some (ins, outs, s) \<longrightarrow>
            prefix outs ins \<and> contents CNT (fst s) = drop (length outs) ins) \<and>
         (\<forall>ins outs s. exec_log_opt CNT cs ([], [], init_opt CNT d, None, None) = Some (ins, outs, s) \<longrightarrow>
            prefix outs ins \<and> contents_opt CNT (fst s) = drop (length outs) ins)"
proof -
  have 1: "prefix outs ins \<and> contents CNT (fst s) = drop (length outs) ins"
    if "exec_log CNT cs ([], [], init CNT d, None, None) = Some (ins, outs, s)" for ins outs s
    using exec_log_prefix[OF assms, of cs d ins outs "fst s" "fst (snd s)" "snd (snd s)"] that
    by simp
  have 2: "prefix outs ins \<and> contents_opt CNT (fst s) = drop (length outs) ins"
    if "exec_log_opt CNT cs ([], [], init_opt CNT d, None, None) = Some (ins, outs, s)"
    for ins outs s
    using exec_log_opt_prefix[OF assms, of cs d ins outs "fst s" "fst (snd s)" "snd (snd s)"] that
    by simp
  from fifo_calls[OF assms, of ops d] 1 2 show ?thesis by blast
qed

theorem fifo_refinement_witness:
  "is_pow2 2 \<and>
   run 2 [TryPush 1, TryPush 2, TryPush 3, TryPop, TryPush 4] ([], [], init 2 (0::nat)) =
     ([1, 2, 4], [1], \<lparr>data = [4, 2], write_idx = 3, read_idx_cach = 1, read_idx = 1\<rparr>) \<and>
   fifo_run 2 [TryPush 1, TryPush 2, TryPush 3, TryPop, TryPush 4] ([], [], []) =
     ([1, 2, 4], [1], [2, 4::nat]) \<and>
   prefix [1] [1, 2, 4::nat] \<and>
   run_opt 2 [TryPush 1, TryPush 2, TryPush 3, TryPop, TryPush 4] ([], [], init_opt 2 (0::nat)) =
     ([1, 4], [1], \<lparr>blk = [\<lparr>avail = False, bdata = 1\<rparr>, \<lparr>avail = True, bdata = 4\<rparr>],
                     write_idx_opt = 0, free_write_cnt = 0, read_idx_opt = 1\<rparr>) \<and>
   fifo_run 1 [TryPush 1, TryPush 2, TryPush 3, TryPop, TryPush 4] ([], [], []) =
     ([1, 4], [1], [4::nat]) \<and>
   prefix [1] [1, 4::nat] \<and>
   exec_log 2 [Alloc, Front, Write 1, Push, Alloc, Front, Pop, Alloc, Write 2, Push]
       ([], [], init 2 (0::nat), None, None) =
     Some ([1, 2], [1], \<lparr>data = [1, 2], write_idx = 2, read_idx_cach = 0, read_idx = 1\<rparr>,
           None, None) \<and>
   exec_log_opt 2 [Alloc, Front, Write 1, Push, Alloc, Front, Pop, Alloc, Write 2, Push]
       ([], [], init_opt 2 (0::nat), None, None) =
     Some ([1, 2], [1], \<lparr>blk = [\<lparr>avail = False, bdata = 1\<rparr>, \<lparr>avail = True, bdata = 2\<rparr>],
                          write_idx_opt = 0, free_write_cnt = 0, read_idx_opt = 1\<rparr>,
           None, None) \<and>
   prefix [1] [1, 2::nat] \<and>
   contents 2 \<lparr>data = [1, 2::nat], write_idx = 2, read_idx_cach = 0, read_idx = 1\<rparr> = [2] \<and>
   contents_opt 2 \<lparr>blk = [\<lparr>avail = False, bdata = 1::nat\<rparr>, \<lparr>avail = True, bdata = 2\<rparr>],
                    write_idx_opt = 0, free_write_cnt = 0, read_idx_opt = 1\<rparr> = [2]"
proof -
  let ?ops = "[TryPush 1, TryPush 2, TryPush 3, TryPop, TryPush (4::nat)]"
  let ?cs = "[Alloc, Front, Write 1, Push, Alloc, Front, Pop, Alloc, Write (2::nat), Push]"
  have h1: "run 2 ?ops ([], [], init 2 (0::nat)) =
     ([1, 2, 4], [1], \<lparr>data = [4, 2], write_idx = 3, read_idx_cach = 1, read_idx = 1\<rparr>)"
    by (simp add: run_def tryPush_def tryPop_def alloc_def push_def front_def pop_def
        call_slot_def store_value_def load_value_def init_def MASK_def replicate_numeral)
  have h2: "run_opt 2 ?ops ([], [], init_opt 2 (0::nat)) =
     ([1, 4], [1], \<lparr>blk = [\<lparr>avail = False, bdata = 1\<rparr>, \<lparr>avail = True, bdata = 4\<rparr>],
                     write_idx_opt = 0, free_write_cnt = 0, read_idx_opt = 1\<rparr>)"
    by (simp add: run_opt_def tryPush_opt_def tryPop_opt_def alloc_opt_def push_opt_def
        front_opt_def pop_opt_def call_slot_opt_def store_value_def load_value_def init_opt_def
        MASK_def replicate_numeral Let_def)
  have h3: "exec_log 2 ?cs ([], [], init 2 (0::nat), None, None) =
     Some ([1, 2], [1], \<lparr>data = [1, 2], write_idx = 2, read_idx_cach = 0, read_idx = 1\<rparr>,
           None, None)"
    by (simp add: init_def alloc_def push_def front_def pop_def MASK_def replicate_numeral)
  have h4: "exec_log_opt 2 ?cs ([], [], init_opt 2 (0::nat), None, None) =
     Some ([1, 2], [1], \<lparr>blk = [\<lparr>avail = False, bdata = 1\<rparr>, \<lparr>avail = True, bdata = 2\<rparr>],
                          write_idx_opt = 0, free_write_cnt = 0, read_idx_opt = 1\<rparr>,
           None, None)"
    by (simp add: init_opt_def alloc_opt_def push_opt_def front_opt_def pop_opt_def MASK_def
        replicate_numeral Let_def)
  note t = fifo_refinement[OF is_pow2_2, of ?ops "0::nat" ?cs]
  from t h3 have c: "prefix [1] [1, 2::nat] \<and>
      contents 2 \<lparr>data = [1, 2::nat], write_idx = 2, read_idx_cach = 0, read_idx = 1\<rparr> =
        drop (length [1::nat]) [1, 2]"
    by (metis fst_conv)
  from t h4 have e: "prefix [1] [1, 2::nat] \<and>
      contents_opt 2 \<lparr>blk = [\<lparr>avail = False, bdata = 1::nat\<rparr>, \<lparr>avail = True, bdata = 2\<rparr>],
                    write_idx_opt = 0, free_write_cnt = 0, read_idx_opt = 1\<rparr> =
        drop (length [1::nat]) [1, 2]"
    by (metis fst_conv)
  have f1: "fifo_run 2 ?ops ([], [], []) = ([1, 2, 4], [1], [2, 4::nat])"
    by (simp add: fifo_run_def)
  have f2: "fifo_run 1 ?ops ([], [], []) = ([1, 4], [1], [4::nat])"
    by (simp add: fifo_run_def)
  from c e show ?thesis
    unfolding h1 h2 h3 h4 f1 f2 by (simp add: is_pow2_2)
qed

text \<open>
  Claim C2. SPSCQueue with a power-of-two capacity \<open>N = CNT\<close>: from the initial state
  \<open>N\<close> consecutive \<open>tryPush\<close> calls all succeed (the log of written values is the whole
  list), with no pop; the next \<open>alloc\<close> then returns null; one pop (here a \<open>tryPop\<close>,
  which succeeds, or \<open>pop\<close> itself) later, \<open>alloc\<close> returns a pointer again.
\<close>

theorem capacity_index:
  assumes "is_pow2 CNT" "length vs = unat CNT"
  shows "(let s = run CNT (map TryPush vs) ([], [], init CNT d);
              q = snd (snd s);
              q1 = snd (alloc CNT q);
              t = tryPop CNT reader (e, q1)
          in fst s = vs \<and> fst (snd s) = [] \<and>
             fst (alloc CNT q) = None \<and>
             fst t \<and>
             fst (alloc CNT (snd (snd t))) \<noteq> None \<and>
             fst (alloc CNT (pop q)) \<noteq> None)"
proof -
  let ?N = "unat CNT"
  obtain ins outs q where r: "run CNT (map TryPush vs) ([], [], init CNT d) = (ins, outs, q)"
    by (cases "run CNT (map TryPush vs) ([], [], init CNT d)")
  have pos: "0 < ?N" by (rule pow2_pos[OF assms(1)])
  from run_refines[OF assms(1) run_inv_init, of "map TryPush vs" d] r
  have i: "run_inv CNT (ins, outs, q)"
    and f: "fifo_of (ins, outs, q) = fifo_run ?N (map TryPush vs) ([], [], [])"
    by (simp_all add: fifo_of_def)
  have "fifo_run ?N (map TryPush vs) ([], [], []) = ([] @ vs, [], [] @ vs)"
    using assms(2) by (intro fifo_run_pushes) simp
  with f have io: "ins = vs" "outs = []" by (simp_all add: fifo_of_def)
  from i io assms(2) have inv: "queue_inv CNT ?N 0 q" by (simp add: run_inv_def)
  have a: "fst (alloc CNT q) = None" using alloc_cases[OF inv assms(1)] by simp
  have inv1: "queue_inv CNT ?N 0 (snd (alloc CNT q))" by (rule queue_inv_alloc[OF inv])
  let ?q1 = "snd (alloc CNT q)"
  let ?q2 = "?q1\<lparr>data := (data ?q1)[0 mod ?N := snd (reader e (data ?q1 ! (0 mod ?N)))]\<rparr>"
  have t: "tryPop CNT reader (e, ?q1) = (True, fst (reader e (data ?q1 ! (0 mod ?N))), pop ?q2)"
    using tryPop_cases[OF inv1 assms(1), of reader e] pos by simp
  have "queue_inv CNT ?N 0 ?q2" by (rule queue_inv_data[OF inv1])
  then have inv3: "queue_inv CNT ?N (Suc 0) (pop ?q2)" using pos by (intro queue_inv_pop) simp_all
  have b: "fst (alloc CNT (pop ?q2)) \<noteq> None" using alloc_cases[OF inv3 assms(1)] by simp
  have inv4: "queue_inv CNT ?N (Suc 0) (pop q)" using pos inv by (intro queue_inv_pop) simp_all
  have c: "fst (alloc CNT (pop q)) \<noteq> None" using alloc_cases[OF inv4 assms(1)] by simp
  show ?thesis using io a t b c by (simp add: r Let_def)
qed

theorem capacity_index_witness:
  "is_pow2 4 \<and> length [1, 2, 3, 4::nat] = unat (4::u32) \<and>
   run 4 (map TryPush [1, 2, 3, 4]) ([], [], init 4 (0::nat)) =
     ([1, 2, 3, 4], [], \<lparr>data = [1, 2, 3, 4], write_idx = 4, read_idx_cach = 0, read_idx = 0\<rparr>) \<and>
   alloc 4 \<lparr>data = [1, 2, 3, 4::nat], write_idx = 4, read_idx_cach = 0, read_idx = 0\<rparr> =
     (None, \<lparr>data = [1, 2, 3, 4], write_idx = 4, read_idx_cach = 0, read_idx = 0\<rparr>) \<and>
   tryPop 4 load_value ([], \<lparr>data = [1, 2, 3, 4::nat], write_idx = 4, read_idx_cach = 0, read_idx = 0\<rparr>) =
     (True, [1], \<lparr>data = [1, 2, 3, 4], write_idx = 4, read_idx_cach = 0, read_idx = 1\<rparr>) \<and>
   fst (alloc 4 \<lparr>data = [1, 2, 3, 4::nat], write_idx = 4, read_idx_cach = 0, read_idx = 1\<rparr>) = Some 0"
proof -
  have l: "length [1, 2, 3, 4::nat] = unat (4::u32)" by simp
  have h: "run 4 (map TryPush [1, 2, 3, 4]) ([], [], init 4 (0::nat)) =
     ([1, 2, 3, 4], [], \<lparr>data = [1, 2, 3, 4], write_idx = 4, read_idx_cach = 0, read_idx = 0\<rparr>)"
    by (simp add: run_def tryPush_def alloc_def push_def call_slot_def store_value_def init_def
        MASK_def replicate_numeral)
  from capacity_index[OF is_pow2_4 l, of "0::nat" load_value "[]"] show ?thesis
    unfolding h
    by (simp add: Let_def is_pow2_4 alloc_def tryPop_def front_def pop_def call_slot_def
        load_value_def MASK_def)
qed

text \<open>
  Claim C3. SPSCQueueOPT with a power-of-two capacity \<open>N = CNT\<close>: from the initial state
  \<open>N - 1\<close> consecutive \<open>tryPush\<close> calls all succeed, with no pop, and the next \<open>alloc\<close>
  returns null. In no sequence of calls in which no pop has succeeded do \<open>N\<close> pushes
  succeed. After the \<open>N - 1\<close> pushes a \<open>tryPop\<close> succeeds exactly when \<open>N \<ge> 2\<close> (for
  \<open>N = 1\<close> there is nothing to pop), and after a successful one the next \<open>tryPush\<close>
  succeeds and the \<open>alloc\<close> after it returns null.
\<close>

theorem capacity_flag:
  assumes "is_pow2 CNT" "length vs = unat CNT - 1"
  shows "(let s = run_opt CNT (map TryPush vs) ([], [], init_opt CNT d);
              q = snd (snd s);
              t = tryPop_opt CNT reader (e, q);
              u = tryPush_opt CNT writer (e1, snd (snd t))
          in fst s = vs \<and> fst (snd s) = [] \<and>
             fst (alloc_opt CNT q) = None \<and>
             (fst t \<longleftrightarrow> 2 \<le> unat CNT) \<and>
             (fst t \<longrightarrow> fst u \<and> fst (alloc_opt CNT (snd (snd u))) = None)) \<and>
         (\<forall>ops. fst (snd (run_opt CNT ops ([], [], init_opt CNT d))) = [] \<longrightarrow>
            length (fst (run_opt CNT ops ([], [], init_opt CNT d))) < unat CNT)"
proof -
  let ?N = "unat CNT"
  obtain ins outs q where r: "run_opt CNT (map TryPush vs) ([], [], init_opt CNT d) = (ins, outs, q)"
    by (cases "run_opt CNT (map TryPush vs) ([], [], init_opt CNT d)")
  have pos: "0 < ?N" by (rule pow2_pos[OF assms(1)])
  note init = run_inv_opt_init[OF assms(1)]
  from run_opt_refines[OF assms(1) init, of "map TryPush vs" d] r
  have i: "run_inv_opt CNT (ins, outs, q)"
    and f: "fifo_of (ins, outs, q) = fifo_run (?N - 1) (map TryPush vs) ([], [], [])"
    by (simp_all add: fifo_of_def)
  have "fifo_run (?N - 1) (map TryPush vs) ([], [], []) = ([] @ vs, [], [] @ vs)"
    using assms(2) by (intro fifo_run_pushes) simp
  with f have io: "ins = vs" "outs = []" by (simp_all add: fifo_of_def)
  from i io assms(2) have inv: "opt_inv CNT (?N - 1) 0 q" by (simp add: run_inv_opt_def)
  have a: "fst (alloc_opt CNT q) = None" using alloc_opt_cases(1)[OF inv assms(1)] pos by simp
  have t: "fst (tryPop_opt CNT reader (e, q)) \<longleftrightarrow> 2 \<le> ?N"
    using tryPop_opt_cases[OF inv assms(1), of reader e] pos by auto
  have u: "fst (tryPush_opt CNT writer (e1, snd (snd (tryPop_opt CNT reader (e, q))))) \<and>
           fst (alloc_opt CNT (snd (snd (tryPush_opt CNT writer
             (e1, snd (snd (tryPop_opt CNT reader (e, q)))))))) = None"
    if ok: "fst (tryPop_opt CNT reader (e, q))"
  proof -
    from ok t have N2: "2 \<le> ?N" by simp
    let ?q1 = "q\<lparr>blk := (blk q)[0 mod ?N :=
              (blk q ! (0 mod ?N))\<lparr>bdata := snd (reader e (bdata (blk q ! (0 mod ?N))))\<rparr>]\<rparr>"
    have p: "snd (snd (tryPop_opt CNT reader (e, q))) = pop_opt CNT ?q1"
      using tryPop_opt_cases[OF inv assms(1), of reader e] N2 by simp
    have "opt_inv CNT (?N - 1) 0 ?q1" by (rule opt_inv_bdata[OF inv])
    then have inv2: "opt_inv CNT (?N - 1) (Suc 0) (pop_opt CNT ?q1)"
      using N2 assms(1) by (intro pop_opt_inv) simp_all
    have ne: "Suc (?N - 1) \<noteq> Suc 0 + ?N" using pos by simp
    from tryPush_opt_not_full[OF inv2 ne assms(1), of writer e1]
    obtain q3 where 3: "tryPush_opt CNT writer (e1, pop_opt CNT ?q1) =
        (True, fst (writer e1 (bdata (blk (pop_opt CNT ?q1) ! ((?N - 1) mod ?N)))), q3)"
      and inv3: "opt_inv CNT (Suc (?N - 1)) (Suc 0) q3" by blast
    have "fst (alloc_opt CNT q3) = None" using alloc_opt_cases(1)[OF inv3 assms(1)] pos by simp
    then show ?thesis using 3 by (simp add: p)
  qed
  have z: "length (fst (run_opt CNT ops ([], [], init_opt CNT d))) < ?N"
    if "fst (snd (run_opt CNT ops ([], [], init_opt CNT d))) = []" for ops
  proof -
    obtain ins2 outs2 q2 where r2: "run_opt CNT ops ([], [], init_opt CNT d) = (ins2, outs2, q2)"
      by (cases "run_opt CNT ops ([], [], init_opt CNT d)")
    from run_opt_refines[OF assms(1) init, of ops d] r2
    have "run_inv_opt CNT (ins2, outs2, q2)" by simp
    then have "opt_inv CNT (length ins2) (length outs2) q2" by (simp add: run_inv_opt_def)
    then have "length ins2 < length outs2 + ?N" by (simp add: opt_inv_def)
    with that r2 show ?thesis by simp
  qed
  show ?thesis using io a t u z by (simp add: r Let_def)
qed

theorem capacity_flag_witness:
  "is_pow2 4 \<and> length [1, 2, 3::nat] = unat (4::u32) - 1 \<and>
   run_opt 4 (map TryPush [1, 2, 3]) ([], [], init_opt 4 (0::nat)) =
     ([1, 2, 3], [],
      \<lparr>blk = [\<lparr>avail = True, bdata = 1\<rparr>, \<lparr>avail = True, bdata = 2\<rparr>,
              \<lparr>avail = True, bdata = 3\<rparr>, \<lparr>avail = False, bdata = 0\<rparr>],
       write_idx_opt = 3, free_write_cnt = 0, read_idx_opt = 0\<rparr>) \<and>
   fst (alloc_opt 4
      \<lparr>blk = [\<lparr>avail = True, bdata = 1::nat\<rparr>, \<lparr>avail = True, bdata = 2\<rparr>,
              \<lparr>avail = True, bdata = 3\<rparr>, \<lparr>avail = False, bdata = 0\<rparr>],
       write_idx_opt = 3, free_write_cnt = 0, read_idx_opt = 0\<rparr>) = None \<and>
   fst (tryPop_opt 4 load_value ([],
      \<lparr>blk = [\<lparr>avail = True, bdata = 1::nat\<rparr>, \<lparr>avail = True, bdata = 2\<rparr>,
              \<lparr>avail = True, bdata = 3\<rparr>, \<lparr>avail = False, bdata = 0\<rparr>],
       write_idx_opt = 3, free_write_cnt = 0, read_idx_opt = 0\<rparr>)) \<and>
   tryPush_opt 4 (store_value 4) ([1, 2, 3],
      \<lparr>blk = [\<lparr>avail = False, bdata = 1::nat\<rparr>, \<lparr>avail = True, bdata = 2\<rparr>,
              \<lparr>avail = True, bdata = 3\<rparr>, \<lparr>avail = False, bdata = 0\<rparr>],
       write_idx_opt = 3, free_write_cnt = 0, read_idx_opt = 1\<rparr>) =
     (True, [1, 2, 3, 4],
      \<lparr>blk = [\<lparr>avail = False, bdata = 1\<rparr>, \<lparr>avail = True, bdata = 2\<rparr>,
              \<lparr>avail = True, bdata = 3\<rparr>, \<lparr>avail = True, bdata = 4\<rparr>],
       write_idx_opt = 0, free_write_cnt = 0, read_idx_opt = 1\<rparr>) \<and>
   fst (alloc_opt 4
      \<lparr>blk = [\<lparr>avail = False, bdata = 1::nat\<rparr>, \<lparr>avail = True, bdata = 2\<rparr>,
              \<lparr>avail = True, bdata = 3\<rparr>, \<lparr>avail = True, bdata = 4\<rparr>],
       write_idx_opt = 0, free_write_cnt = 0, read_idx_opt = 1\<rparr>) = None"
proof -
  have l: "length [1, 2, 3::nat] = unat (4::u32) - 1" by simp
  have h: "run_opt 4 (map TryPush [1, 2, 3]) ([], [], init_opt 4 (0::nat)) =
     ([1, 2, 3], [],
      \<lparr>blk = [\<lparr>avail = True, bdata = 1\<rparr>, \<lparr>avail = True, bdata = 2\<rparr>,
              \<lparr>avail = True, bdata = 3\<rparr>, \<lparr>avail = False, bdata = 0\<rparr>],
       write_idx_opt = 3, free_write_cnt = 0, read_idx_opt = 0\<rparr>)"
    by (simp add: run_opt_def tryPush_opt_def alloc_opt_def push_opt_def call_slot_opt_def
        store_value_def init_opt_def MASK_def replicate_numeral Let_def)
  from capacity_flag[OF is_pow2_4 l, of "0::nat" load_value "[]" "store_value 4" "[1, 2, 3]",
      THEN conjunct1]
  show ?thesis
    unfolding h
    by (simp add: Let_def is_pow2_4 alloc_opt_def tryPop_opt_def tryPush_opt_def front_opt_def
        pop_opt_def push_opt_def call_slot_opt_def load_value_def store_value_def MASK_def)
qed

section \<open>Cursors and indices\<close>

text \<open>
  Claim C4. SPSCQueue: in every state reached from the initial state by a valid sequence
  of \<open>alloc\<close>, writes through the pointer, \<open>push\<close>, \<open>front\<close> and \<open>pop\<close> (push only
  after a successful alloc, pop only after a successful front), the difference
  \<open>write_idx - read_idx\<close> of the 32-bit cursors is at most \<open>CNT\<close>, and it is the number
  of pushes minus the number of pops.
\<close>

theorem cursor_difference:
  assumes "is_pow2 CNT" "exec CNT cs (init CNT d, None, None) = Some (q, wp, rp)"
  shows "unat (write_idx q - read_idx q) \<le> unat CNT \<and>
         count_list cs Pop \<le> count_list cs Push \<and>
         unat (write_idx q - read_idx q) = count_list cs Push - count_list cs Pop"
proof -
  from exec_inv[OF assms(1) client_inv_init assms(2)]
  have inv: "queue_inv CNT (count_list cs Push) (count_list cs Pop) q"
    by (simp add: client_inv_def)
  then have "count_list cs Pop \<le> count_list cs Push"
    "count_list cs Push \<le> count_list cs Pop + unat CNT"
    by (simp_all add: queue_inv_def)
  with unat_diff_cursors[OF inv] show ?thesis by simp
qed

theorem cursor_difference_witness:
  "is_pow2 4 \<and>
   exec 4 [Alloc, Write 1, Push, Alloc, Write 2, Push, Front, Pop] (init 4 (0::nat), None, None) =
     Some (\<lparr>data = [1, 2, 0, 0], write_idx = 2, read_idx_cach = 0, read_idx = 1\<rparr>, None, None) \<and>
   unat (2 - 1 :: u32) = 1 \<and>
   count_list [Alloc, Write 1, Push, Alloc, Write 2, Push, Front, Pop :: nat call] Push = 2 \<and>
   count_list [Alloc, Write 1, Push, Alloc, Write 2, Push, Front, Pop :: nat call] Pop = 1"
proof -
  have h1: "is_pow2 4" by (simp add: is_pow2_def)
  have h2: "exec 4 [Alloc, Write 1, Push, Alloc, Write 2, Push, Front, Pop] (init 4 (0::nat), None, None) =
     Some (\<lparr>data = [1, 2, 0, 0], write_idx = 2, read_idx_cach = 0, read_idx = 1\<rparr>, None, None)"
    by (simp add: init_def alloc_def push_def front_def pop_def MASK_def replicate_numeral)
  from cursor_difference[OF h1 h2] h1 h2 show ?thesis by simp
qed

text \<open>
  Claim C5 as stated says that \<open>pop\<close> of SPSCQueueOPT stores \<open>read + 1\<close>, also when the
  read index is \<open>N - 1\<close>. With \<open>CNT = 2\<close>, after one push and pop and a second push the
  read index is \<open>1 = N - 1\<close> and \<open>front\<close> has returned a pointer; \<open>pop\<close> then stores
  \<open>0\<close>, not \<open>2\<close>.
\<close>

theorem pop_opt_wraps_counterexample:
  "exec_opt 2 [Alloc, Write 1, Push, Front, Pop, Alloc, Write 2, Push, Front]
     (init_opt 2 (0::nat), None, None) =
     Some (\<lparr>blk = [\<lparr>avail = False, bdata = 1\<rparr>, \<lparr>avail = True, bdata = 2\<rparr>],
            write_idx_opt = 0, free_write_cnt = 0, read_idx_opt = 1\<rparr>, None, Some 1) \<and>
   read_idx_opt (pop_opt 2
     \<lparr>blk = [\<lparr>avail = False, bdata = 1::nat\<rparr>, \<lparr>avail = True, bdata = 2\<rparr>],
      write_idx_opt = 0, free_write_cnt = 0, read_idx_opt = 1\<rparr>) = 0 \<and>
   read_idx_opt (pop_opt 2
     \<lparr>blk = [\<lparr>avail = False, bdata = 1::nat\<rparr>, \<lparr>avail = True, bdata = 2\<rparr>],
      write_idx_opt = 0, free_write_cnt = 0, read_idx_opt = 1\<rparr>) \<noteq> 1 + 1"
  by (simp add: init_opt_def alloc_opt_def push_opt_def front_opt_def pop_opt_def MASK_def
      replicate_numeral Let_def)

text \<open>
  Claim C5, amended. SPSCQueueOPT: in every state reached by a valid sequence of calls in
  which \<open>front\<close> has returned a pointer, that pointer is the block at the read index and
  its avail flag is set; \<open>pop\<close> clears that flag and stores \<open>(read + 1) AND MASK\<close> in the
  read index. So the read index advances by one modulo \<open>CNT\<close>: it becomes \<open>read + 1\<close>
  when \<open>read < CNT - 1\<close> and \<open>0\<close> when \<open>read = CNT - 1\<close>.
\<close>

theorem pop_opt_advance:
  assumes "is_pow2 CNT" "exec_opt CNT cs (init_opt CNT d, None, None) = Some (q, wp, Some p)"
  shows "p = unat (read_idx_opt q) \<and> avail (blk q ! p) \<and>
         pop_opt CNT q =
           q\<lparr>blk := (blk q)[p := (blk q ! p)\<lparr>avail := False\<rparr>],
             read_idx_opt := (read_idx_opt q + 1) AND MASK CNT\<rparr> \<and>
         \<not> avail (blk (pop_opt CNT q) ! p) \<and>
         unat (read_idx_opt (pop_opt CNT q)) = (unat (read_idx_opt q) + 1) mod unat CNT \<and>
         unat (read_idx_opt (pop_opt CNT q)) =
           (if unat (read_idx_opt q) = unat CNT - 1 then 0 else unat (read_idx_opt q) + 1)"
proof -
  let ?N = "unat CNT"
  let ?R = "count_list cs Pop" and ?W = "count_list cs Push"
  have pos: "0 < ?N" by (rule pow2_pos[OF assms(1)])
  from exec_opt_inv[OF assms(1) client_inv_opt_init[OF assms(1)] assms(2)]
  have c: "client_inv_opt CNT ?W ?R (q, wp, Some p)" by simp
  then have inv: "opt_inv CNT ?W ?R q" and lt: "?R < ?W" and p: "p = ?R mod ?N"
    by (simp_all add: client_inv_opt_def)
  from inv have len: "length (blk q) = ?N" and ri: "unat (read_idx_opt q) = ?R mod ?N"
    by (simp_all add: opt_inv_def)
  have pr: "p = unat (read_idx_opt q)" using p ri by simp
  have plt: "p < length (blk q)" using p len pos by simp
  have av: "avail (blk q ! p)"
    using front_opt_cases[OF inv assms(1)] lt pr
    by (auto simp: front_opt_def Let_def split: if_splits)
  have eq: "pop_opt CNT q =
           q\<lparr>blk := (blk q)[p := (blk q ! p)\<lparr>avail := False\<rparr>],
             read_idx_opt := (read_idx_opt q + 1) AND MASK CNT\<rparr>"
    by (simp add: pop_opt_def Let_def pr)
  have na: "\<not> avail (blk (pop_opt CNT q) ! p)" using plt by (simp add: eq)
  have "unat (read_idx_opt (pop_opt CNT q)) = Suc (unat (read_idx_opt q)) mod ?N"
    using next_index[OF assms(1), of "read_idx_opt q" "unat (read_idx_opt q)"] ri
    by (simp add: eq)
  then have nx: "unat (read_idx_opt (pop_opt CNT q)) = (unat (read_idx_opt q) + 1) mod ?N"
    by simp
  have rlt: "unat (read_idx_opt q) < ?N" using ri pos by simp
  have "(unat (read_idx_opt q) + 1) mod ?N =
        (if unat (read_idx_opt q) = ?N - 1 then 0 else unat (read_idx_opt q) + 1)"
    using rlt by (auto simp: mod_Suc)
  with pr av eq na nx show ?thesis by simp
qed

theorem pop_opt_advance_witness:
  "is_pow2 2 \<and>
   exec_opt 2 [Alloc, Write 1, Push, Front, Pop, Alloc, Write 2, Push, Front]
     (init_opt 2 (0::nat), None, None) =
     Some (\<lparr>blk = [\<lparr>avail = False, bdata = 1\<rparr>, \<lparr>avail = True, bdata = 2\<rparr>],
            write_idx_opt = 0, free_write_cnt = 0, read_idx_opt = 1\<rparr>, None, Some 1) \<and>
   unat (read_idx_opt (pop_opt 2
     \<lparr>blk = [\<lparr>avail = False, bdata = 1::nat\<rparr>, \<lparr>avail = True, bdata = 2\<rparr>],
      write_idx_opt = 0, free_write_cnt = 0, read_idx_opt = 1\<rparr>)) = 0"
proof -
  have h: "exec_opt 2 [Alloc, Write 1, Push, Front, Pop, Alloc, Write 2, Push, Front]
     (init_opt 2 (0::nat), None, None) =
     Some (\<lparr>blk = [\<lparr>avail = False, bdata = 1\<rparr>, \<lparr>avail = True, bdata = 2\<rparr>],
            write_idx_opt = 0, free_write_cnt = 0, read_idx_opt = 1\<rparr>, None, Some 1)"
    by (simp add: init_opt_def alloc_opt_def push_opt_def front_opt_def pop_opt_def MASK_def
        replicate_numeral Let_def)
  from pop_opt_advance[OF is_pow2_2 h] is_pow2_2 h show ?thesis by (simp add: MASK_def)
qed

text \<open>
  Claim C6. SPSCQueueOPT with \<open>CNT = 1\<close>: the free count starts at zero, the
  recomputation \<open>(rd - wr + 1 - 1) AND MASK\<close> gives zero for all indices, the first
  \<open>alloc\<close> returns null, and so does \<open>alloc\<close> in every state reached by a valid sequence
  of calls: \<open>tryPush\<close> fails, no valid sequence contains a push, the one block is never
  available and \<open>front\<close> returns null. In no sequence of \<open>tryPush\<close> and \<open>tryPop\<close>
  calls does a \<open>tryPush\<close> succeed: the queue never holds an element.
\<close>

theorem flag_queue_capacity_one:
  "free_write_cnt (init_opt 1 d) = 0 \<and>
   (rd - wr + 1 - 1) AND MASK 1 = 0 \<and>
   fst (alloc_opt 1 (init_opt 1 d)) = None \<and>
   (\<forall>q wp rp. exec_opt 1 cs (init_opt 1 d, None, None) = Some (q, wp, rp) \<longrightarrow>
      fst (alloc_opt 1 q) = None \<and> \<not> fst (tryPush_opt 1 writer (e, q)) \<and>
      front_opt q = None \<and> \<not> avail (blk q ! 0) \<and> length (blk q) = 1 \<and>
      free_write_cnt q = 0 \<and> wp = None \<and> rp = None \<and> Push \<notin> set cs) \<and>
   fst (run_opt 1 ops ([], [], init_opt 1 d)) = []"
proof -
  have a: "free_write_cnt (init_opt 1 d) = 0" by (simp add: init_opt_def)
  have b: "(rd - wr + 1 - 1) AND MASK 1 = 0" by (simp add: MASK_def)
  have i: "client_inv_opt 1 0 0 (init_opt 1 d, None, None)"
    by (rule client_inv_opt_init[OF is_pow2_1])
  have c: "fst (alloc_opt 1 (init_opt 1 d)) = None"
    by (simp add: alloc_opt_def init_opt_def MASK_def)
  have r: "fst (alloc_opt 1 q) = None \<and> \<not> fst (tryPush_opt 1 writer (e, q)) \<and>
      front_opt q = None \<and> \<not> avail (blk q ! 0) \<and> length (blk q) = 1 \<and>
      free_write_cnt q = 0 \<and> wp = None \<and> rp = None \<and> Push \<notin> set cs"
    if h: "exec_opt 1 cs (init_opt 1 d, None, None) = Some (q, wp, rp)" for q wp rp
  proof -
    let ?W = "count_list cs Push" and ?R = "count_list cs Pop"
    from exec_opt_inv[OF is_pow2_1 i h]
    have ci: "client_inv_opt 1 ?W ?R (q, wp, rp)" by simp
    then have inv: "opt_inv 1 ?W ?R q" by (simp add: client_inv_opt_def)
    note one = client_inv_opt_one[OF ci]
    have al: "fst (alloc_opt 1 q) = None"
      using alloc_opt_cases(1)[OF inv is_pow2_1] one(1) by simp
    have fr: "front_opt q = None" using front_opt_cases[OF inv is_pow2_1] one(1) by simp
    have "\<not> avail (blk q ! unat (read_idx_opt q))"
      using fr by (auto simp: front_opt_def Let_def split: if_splits)
    moreover have "unat (read_idx_opt q) = 0" "length (blk q) = 1"
      using inv by (simp_all add: opt_inv_def)
    ultimately have av: "\<not> avail (blk q ! 0)" "length (blk q) = 1" by simp_all
    from exec_opt_one[OF i h] have "Push \<notin> set cs" by simp
    with al fr av one show ?thesis by (simp add: tryPush_opt_fail)
  qed
  have "fifo_of (run_opt 1 ops ([], [], init_opt 1 d)) = fifo_run (unat (1::u32) - 1) ops ([], [], [])"
    using run_opt_refines[OF is_pow2_1 run_inv_opt_init[OF is_pow2_1], of ops d]
    by (simp add: fifo_of_def)
  then have n: "fst (run_opt 1 ops ([], [], init_opt 1 d)) = []"
    by (simp add: fifo_run_zero fifo_of_def split: prod.splits)
  from a b c r n show ?thesis by blast
qed

theorem flag_queue_capacity_one_witness:
  "exec_opt 1 [Alloc, Front, Alloc] (init_opt 1 (0::nat), None, None) =
     Some (init_opt 1 0, None, None) \<and>
   fst (alloc_opt 1 (init_opt 1 (0::nat))) = None \<and>
   \<not> fst (tryPush_opt 1 (store_value 5) ([], init_opt 1 (0::nat))) \<and>
   fst (run_opt 1 [TryPush 5, TryPop, TryPush 6] ([], [], init_opt 1 (0::nat))) = []"
proof -
  have h: "exec_opt 1 [Alloc, Front, Alloc] (init_opt 1 (0::nat), None, None) =
     Some (init_opt 1 0, None, None)"
    by (simp add: init_opt_def alloc_opt_def front_opt_def MASK_def Let_def)
  from flag_queue_capacity_one[of "0::nat" 0 0 "[Alloc, Front, Alloc]" "store_value 5" "[]"
      "[TryPush 5, TryPop, TryPush 6]"] h
  show ?thesis by simp
qed

section \<open>The wrappers tryPush, tryPop and blockPush\<close>

text \<open>
  Claim C7. For both variants and every queue state, \<open>tryPush\<close> returns false exactly
  when \<open>alloc\<close> returns null, and \<open>tryPop\<close> returns false exactly when \<open>front\<close>
  returns null. On failure the callback is not invoked: the environment of the closure
  comes back as it was, and a callback that counts its invocations has counted none.
  On success the callback is invoked once, on the slot the pointer names and on the
  state that \<open>alloc\<close> (or \<open>front\<close>) left, and \<open>push\<close> (or \<open>pop\<close>) is applied to the
  state the callback left.
\<close>

theorem try_wrappers:
  "(\<not> fst (tryPush CNT writer (e, q)) \<longleftrightarrow> fst (alloc CNT q) = None) \<and>
   (\<not> fst (tryPop CNT reader (e, q)) \<longleftrightarrow> front CNT q = None) \<and>
   (\<not> fst (tryPush_opt CNT writer (e, b)) \<longleftrightarrow> fst (alloc_opt CNT b) = None) \<and>
   (\<not> fst (tryPop_opt CNT reader (e, b)) \<longleftrightarrow> front_opt b = None) \<and>
   tryPush CNT writer (e, q) =
     (case alloc CNT q of
        (None, q1) \<Rightarrow> (False, e, q1)
      | (Some p, q1) \<Rightarrow>
          (True, fst (writer e (data q1 ! p)),
           push (q1\<lparr>data := (data q1)[p := snd (writer e (data q1 ! p))]\<rparr>))) \<and>
   tryPop CNT reader (e, q) =
     (case front CNT q of
        None \<Rightarrow> (False, e, q)
      | Some p \<Rightarrow>
          (True, fst (reader e (data q ! p)),
           pop (q\<lparr>data := (data q)[p := snd (reader e (data q ! p))]\<rparr>))) \<and>
   tryPush_opt CNT writer (e, b) =
     (case alloc_opt CNT b of
        (None, b1) \<Rightarrow> (False, e, b1)
      | (Some p, b1) \<Rightarrow>
          (True, fst (writer e (bdata (blk b1 ! p))),
           push_opt CNT
             (b1\<lparr>blk := (blk b1)[p := (blk b1 ! p)\<lparr>bdata := snd (writer e (bdata (blk b1 ! p)))\<rparr>]\<rparr>))) \<and>
   tryPop_opt CNT reader (e, b) =
     (case front_opt b of
        None \<Rightarrow> (False, e, b)
      | Some p \<Rightarrow>
          (True, fst (reader e (bdata (blk b ! p))),
           pop_opt CNT
             (b\<lparr>blk := (blk b)[p := (blk b ! p)\<lparr>bdata := snd (reader e (bdata (blk b ! p)))\<rparr>]\<rparr>))) \<and>
   fst (snd (tryPush CNT (\<lambda>k x. (Suc k, f x)) (n, q))) =
     (if fst (alloc CNT q) = None then n else Suc n) \<and>
   fst (snd (tryPop CNT (\<lambda>k x. (Suc k, f x)) (n, q))) =
     (if front CNT q = None then n else Suc n) \<and>
   fst (snd (tryPush_opt CNT (\<lambda>k x. (Suc k, f x)) (n, b))) =
     (if fst (alloc_opt CNT b) = None then n else Suc n) \<and>
   fst (snd (tryPop_opt CNT (\<lambda>k x. (Suc k, f x)) (n, b))) =
     (if front_opt b = None then n else Suc n)"
  by (simp add: tryPush_def tryPop_def tryPush_opt_def tryPop_opt_def call_slot_def
      call_slot_opt_def split: prod.splits option.splits)

theorem try_wrappers_witness:
  "fst (tryPush 4 (store_value (7::nat)) ([], init 4 0)) \<and>
   fst (snd (tryPush 4 (store_value (7::nat)) ([], init 4 0))) = [7] \<and>
   \<not> fst (tryPop 4 load_value ([]::nat list, init 4 0)) \<and>
   fst (tryPush_opt 4 (store_value (7::nat)) ([], init_opt 4 0)) \<and>
   \<not> fst (tryPop_opt 4 load_value ([]::nat list, init_opt 4 0))"
  using try_wrappers [of 4 "store_value (7::nat)" "[]" "init 4 0" load_value "init_opt 4 0" id 0]
  by (simp add: alloc_def alloc_opt_def front_def front_opt_def init_def init_opt_def
      store_value_def MASK_def)



text \<open>
  Claim C9. For both variants and every state (so every reachable one): when \<open>tryPush\<close>
  returns false, the write index, the read index and the slots are as before, and so
  are the avail flags of SPSCQueueOPT; in SPSCQueue the cached read index has been
  refreshed from the read index, in SPSCQueueOPT the free count is zero as it was.
  When \<open>tryPop\<close> returns false, the whole state is as before. The environment of the
  callback is unchanged in all four cases.
\<close>

theorem failed_try_keeps_queue:
  "(\<not> fst (tryPush CNT writer (e, q)) \<longrightarrow>
      snd (tryPush CNT writer (e, q)) = (e, q\<lparr>read_idx_cach := read_idx q\<rparr>) \<and>
      write_idx (snd (snd (tryPush CNT writer (e, q)))) = write_idx q \<and>
      read_idx (snd (snd (tryPush CNT writer (e, q)))) = read_idx q \<and>
      data (snd (snd (tryPush CNT writer (e, q)))) = data q) \<and>
   (\<not> fst (tryPop CNT reader (e, q)) \<longrightarrow> snd (tryPop CNT reader (e, q)) = (e, q)) \<and>
   (\<not> fst (tryPush_opt CNT writer (e, b)) \<longrightarrow>
      snd (tryPush_opt CNT writer (e, b)) = (e, b) \<and>
      write_idx_opt (snd (snd (tryPush_opt CNT writer (e, b)))) = write_idx_opt b \<and>
      read_idx_opt (snd (snd (tryPush_opt CNT writer (e, b)))) = read_idx_opt b \<and>
      blk (snd (snd (tryPush_opt CNT writer (e, b)))) = blk b) \<and>
   (\<not> fst (tryPop_opt CNT reader (e, b)) \<longrightarrow> snd (tryPop_opt CNT reader (e, b)) = (e, b))"
proof -
  have 1: "fst (tryPush CNT writer (e, q)) \<or> fst (alloc CNT q) = None"
    by (cases "alloc CNT q") (auto simp: tryPush_def split: option.splits prod.splits)
  have 2: "fst (tryPop CNT reader (e, q)) \<or> front CNT q = None"
    by (auto simp: tryPop_def split: option.splits prod.splits)
  have 3: "fst (tryPush_opt CNT writer (e, b)) \<or> fst (alloc_opt CNT b) = None"
    by (cases "alloc_opt CNT b") (auto simp: tryPush_opt_def split: option.splits prod.splits)
  have 4: "fst (tryPop_opt CNT reader (e, b)) \<or> front_opt b = None"
    by (auto simp: tryPop_opt_def split: option.splits prod.splits)
  show ?thesis
    using 1 2 3 4
    by (auto simp: tryPush_fail tryPop_fail tryPush_opt_fail tryPop_opt_fail
        alloc_None_D alloc_opt_None_D)
qed

theorem failed_try_keeps_queue_witness:
  "\<not> fst (tryPush 2 (store_value (9::nat)) ([],
       \<lparr>data = [1, 2], write_idx = 2, read_idx_cach = 0, read_idx = 0\<rparr>)) \<and>
   snd (tryPush 2 (store_value (9::nat)) ([],
       \<lparr>data = [1, 2], write_idx = 2, read_idx_cach = 0, read_idx = 0\<rparr>)) =
     ([], \<lparr>data = [1, 2], write_idx = 2, read_idx_cach = 0, read_idx = 0\<rparr>) \<and>
   \<not> fst (tryPush_opt 2 (store_value (9::nat)) ([],
       \<lparr>blk = [\<lparr>avail = True, bdata = 1\<rparr>, \<lparr>avail = False, bdata = 0\<rparr>],
        write_idx_opt = 1, free_write_cnt = 0, read_idx_opt = 0\<rparr>)) \<and>
   snd (tryPush_opt 2 (store_value (9::nat)) ([],
       \<lparr>blk = [\<lparr>avail = True, bdata = 1\<rparr>, \<lparr>avail = False, bdata = 0\<rparr>],
        write_idx_opt = 1, free_write_cnt = 0, read_idx_opt = 0\<rparr>)) =
     ([], \<lparr>blk = [\<lparr>avail = True, bdata = 1\<rparr>, \<lparr>avail = False, bdata = 0\<rparr>],
        write_idx_opt = 1, free_write_cnt = 0, read_idx_opt = 0\<rparr>) \<and>
   \<not> fst (tryPop 2 load_value ([]::nat list, init 2 0)) \<and>
   snd (tryPop 2 load_value ([]::nat list, init 2 0)) = ([], init 2 0) \<and>
   \<not> fst (tryPop_opt 2 load_value ([]::nat list, init_opt 2 0)) \<and>
   snd (tryPop_opt 2 load_value ([]::nat list, init_opt 2 0)) = ([], init_opt 2 0)"
  using
    failed_try_keeps_queue [of 2 "store_value (9::nat)" "[]"
      "\<lparr>data = [1, 2], write_idx = 2, read_idx_cach = 0, read_idx = 0\<rparr>" load_value
      "\<lparr>blk = [\<lparr>avail = True, bdata = 1\<rparr>, \<lparr>avail = False, bdata = 0\<rparr>],
        write_idx_opt = 1, free_write_cnt = 0, read_idx_opt = 0\<rparr>"]
    failed_try_keeps_queue [of 2 "store_value (9::nat)" "[]" "init 2 0" load_value "init_opt 2 0"]
  by (simp add: tryPush_def tryPop_def tryPush_opt_def tryPop_opt_def alloc_def alloc_opt_def
      front_def front_opt_def init_def init_opt_def MASK_def)

section \<open>Array bounds\<close>

text \<open>
  Claim C10. SPSCQueueOPT: in every state reached from the initial state by a valid
  sequence of calls, the block array has \<open>CNT\<close> blocks, the write index and the read
  index are below \<open>CNT\<close>, and a pointer the client holds from \<open>alloc\<close> or \<open>front\<close> is
  the block at the write or read index. So \<open>blk[write_idx]\<close> and \<open>blk[read_idx]\<close> in
  \<open>alloc\<close>, \<open>push\<close>, \<open>front\<close> and \<open>pop\<close> are inside the array.
\<close>

theorem indices_in_bounds:
  assumes "is_pow2 CNT" "exec_opt CNT cs (init_opt CNT d, None, None) = Some (q, wp, rp)"
  shows "length (blk q) = unat CNT \<and>
         write_idx_opt q < CNT \<and> read_idx_opt q < CNT \<and>
         unat (write_idx_opt q) < length (blk q) \<and> unat (read_idx_opt q) < length (blk q) \<and>
         (\<forall>p. wp = Some p \<longrightarrow> p = unat (write_idx_opt q)) \<and>
         (\<forall>p. rp = Some p \<longrightarrow> p = unat (read_idx_opt q))"
proof -
  have pos: "0 < unat CNT" by (rule pow2_pos[OF assms(1)])
  from exec_opt_inv[OF assms(1) client_inv_opt_init[OF assms(1)] assms(2)]
  have c: "client_inv_opt CNT (count_list cs Push) (count_list cs Pop) (q, wp, rp)" by simp
  then have inv: "opt_inv CNT (count_list cs Push) (count_list cs Pop) q"
    by (simp add: client_inv_opt_def)
  from inv have len: "length (blk q) = unat CNT"
    and wi: "unat (write_idx_opt q) = count_list cs Push mod unat CNT"
    and ri: "unat (read_idx_opt q) = count_list cs Pop mod unat CNT"
    by (simp_all add: opt_inv_def)
  from wi ri pos have lt: "unat (write_idx_opt q) < unat CNT" "unat (read_idx_opt q) < unat CNT"
    by simp_all
  then have "write_idx_opt q < CNT" "read_idx_opt q < CNT" by (simp_all add: word_less_nat_alt)
  moreover have "\<forall>p. wp = Some p \<longrightarrow> p = unat (write_idx_opt q)"
    using c wi by (simp add: client_inv_opt_def)
  moreover have "\<forall>p. rp = Some p \<longrightarrow> p = unat (read_idx_opt q)"
    using c ri by (simp add: client_inv_opt_def)
  ultimately show ?thesis using len lt by simp
qed

theorem indices_in_bounds_witness:
  "is_pow2 2 \<and>
   exec_opt 2 [Alloc, Write 1, Push, Front, Pop, Alloc, Write 2, Push, Front, Pop, Alloc]
     (init_opt 2 (0::nat), None, None) =
     Some (\<lparr>blk = [\<lparr>avail = False, bdata = 1\<rparr>, \<lparr>avail = False, bdata = 2\<rparr>],
            write_idx_opt = 0, free_write_cnt = 1, read_idx_opt = 0\<rparr>, Some 0, None) \<and>
   (0::u32) < 2 \<and> unat (0::u32) < length [\<lparr>avail = False, bdata = 1::nat\<rparr>, \<lparr>avail = False, bdata = 2\<rparr>]"
proof -
  have h: "exec_opt 2 [Alloc, Write 1, Push, Front, Pop, Alloc, Write 2, Push, Front, Pop, Alloc]
     (init_opt 2 (0::nat), None, None) =
     Some (\<lparr>blk = [\<lparr>avail = False, bdata = 1\<rparr>, \<lparr>avail = False, bdata = 2\<rparr>],
            write_idx_opt = 0, free_write_cnt = 1, read_idx_opt = 0\<rparr>, Some 0, None)"
    by (simp add: init_opt_def alloc_opt_def push_opt_def front_opt_def pop_opt_def MASK_def
        replicate_numeral Let_def)
  from indices_in_bounds[OF is_pow2_2 h] is_pow2_2 h show ?thesis by simp
qed

end
